theory Spec2Isabelle
  imports Complex_Main "HOL-Library.FSet"
begin

section \<open>JavaScript values used by the scraper\<close>

text \<open>
  A JavaScript number is modelled by its mathematical value: not-a-number, the two
  infinities, or a finite rational, the value of a finite binary64 number (the two zeros
  are one value). What \<^verbatim>\<open>Number\<close>, a product, a quotient and a sum yield is rounded to
  binary64 by \<open>round_to_double\<close> below; a number read from JSON arrives as the parser
  made it.
\<close>

datatype jsnum = NaN | PosInf | NegInf | Fin rat

fun js_lt :: "jsnum \<Rightarrow> jsnum \<Rightarrow> bool" where
  "js_lt (Fin x) (Fin y) = (x < y)"
| "js_lt (Fin x) PosInf = True"
| "js_lt NegInf (Fin y) = True"
| "js_lt NegInf PosInf = True"
| "js_lt _ _ = False"

fun js_le :: "jsnum \<Rightarrow> jsnum \<Rightarrow> bool" where
  "js_le NaN _ = False"
| "js_le _ NaN = False"
| "js_le a b = (a = b \<or> js_lt a b)"

definition js_gt :: "jsnum \<Rightarrow> jsnum \<Rightarrow> bool" where
  "js_gt a b = js_lt b a"

definition js_ge :: "jsnum \<Rightarrow> jsnum \<Rightarrow> bool" where
  "js_ge a b = js_le b a"

definition num :: "int \<Rightarrow> jsnum" where
  "num i = Fin (of_int i)"

subsection \<open>Strings\<close>

text \<open>
  A JavaScript string is modelled as a list of 8-bit code units. Case mapping acts on
  the ASCII letters; the white space removed by \<^verbatim>\<open>trim\<close> is TAB, LF, VT, FF, CR,
  SPACE and NO-BREAK SPACE (the white space and line terminators below U+0100).
\<close>

definition upper_letters :: string where
  "upper_letters = ''ABCDEFGHIJKLMNOPQRSTUVWXYZ''"

definition lower_letters :: string where
  "lower_letters = ''abcdefghijklmnopqrstuvwxyz''"

definition lower_char :: "char \<Rightarrow> char" where
  "lower_char c = (case map_of (zip upper_letters lower_letters) c of Some d \<Rightarrow> d | None \<Rightarrow> c)"

definition upper_char :: "char \<Rightarrow> char" where
  "upper_char c = (case map_of (zip lower_letters upper_letters) c of Some d \<Rightarrow> d | None \<Rightarrow> c)"

definition toLowerCase :: "string \<Rightarrow> string" where
  "toLowerCase s = map lower_char s"

definition toUpperCase :: "string \<Rightarrow> string" where
  "toUpperCase s = map upper_char s"

definition js_whitespace :: "char list" where
  "js_whitespace = [CHR 0x09, CHR 0x0A, CHR 0x0B, CHR 0x0C, CHR 0x0D, CHR 0x20, CHR 0xA0]"

definition is_ws :: "char \<Rightarrow> bool" where
  "is_ws c = (c \<in> set js_whitespace)"

definition trim :: "string \<Rightarrow> string" where
  "trim s = rev (dropWhile is_ws (rev (dropWhile is_ws s)))"

fun startsWith :: "string \<Rightarrow> string \<Rightarrow> bool" where
  "startsWith s [] = True"
| "startsWith [] (p # ps) = False"
| "startsWith (c # cs) (p # ps) = (c = p \<and> startsWith cs ps)"

definition endsWith :: "string \<Rightarrow> string \<Rightarrow> bool" where
  "endsWith s p = startsWith (rev s) (rev p)"

fun str_includes :: "string \<Rightarrow> string \<Rightarrow> bool" where
  "str_includes [] p = (p = [])"
| "str_includes (c # cs) p = (startsWith (c # cs) p \<or> str_includes cs p)"

subsection \<open>Thrown values\<close>

text \<open>
  What a rejected promise or a \<^verbatim>\<open>throw\<close> carries: a primitive (with the text
  \<^verbatim>\<open>String\<close> gives it), or an object with the
  properties the code inspects: whether it is an \<^verbatim>\<open>Error\<close> instance, its \<^verbatim>\<open>code\<close>
  when that is a string, its \<^verbatim>\<open>message\<close>, and its \<^verbatim>\<open>cause\<close> when that is truthy. The
  cause chain is a finite tree, so an object is never its own cause.
\<close>

datatype thrown =
    Prim (prim_text: string)
  | Obj (is_Error: bool) (code_field: "string option") (message: string) (cause: "thrown option")

definition new_Error :: "string \<Rightarrow> thrown" where
  "new_Error msg = Obj True None msg None"

section \<open>Normalization utilities\<close>

subsection \<open>The built-in conversion of a string to a number\<close>

text \<open>
  \<^verbatim>\<open>Number(s)\<close> for a string: white space is trimmed, the empty string is 0, then a binary,
  octal or hexadecimal integer literal, or an optionally signed decimal literal
  (\<^verbatim>\<open>Infinity\<close>, digits with optional fraction and exponent); anything else is NaN.
  The value of the literal is rounded to binary64.
\<close>

definition digit_value :: "char \<Rightarrow> nat option" where
  "digit_value c =
     map_of (zip ''0123456789abcdefABCDEF''
               [0, 1, 2, 3, 4, 5, 6, 7, 8, 9, 10, 11, 12, 13, 14, 15, 10, 11, 12, 13, 14, 15]) c"

definition is_radix_digit :: "nat \<Rightarrow> char \<Rightarrow> bool" where
  "is_radix_digit b c = (case digit_value c of Some d \<Rightarrow> d < b | None \<Rightarrow> False)"

definition is_digit :: "char \<Rightarrow> bool" where
  "is_digit c = is_radix_digit 10 c"

definition radix_value :: "nat \<Rightarrow> string \<Rightarrow> nat" where
  "radix_value b ds =
     foldl (\<lambda>acc c. acc * b + (case digit_value c of Some d \<Rightarrow> d | None \<Rightarrow> 0)) 0 ds"

text \<open>
  Rounding to binary64, to nearest with ties to even. For \<open>r \<noteq> 0\<close> let \<open>e\<close> be the binary
  exponent of \<open>\<bar>r\<bar>\<close> (\<open>2 ^ e \<le> \<bar>r\<bar> < 2 ^ (e + 1)\<close>), not below -1022 where the subnormal
  numbers begin. The binary64 numbers of that exponent are the multiples of
  \<open>2 ^ (e - 52)\<close>; the result is the nearest of them, and infinite from \<open>2 ^ 1024\<close> on.
\<close>

definition pow2 :: "int \<Rightarrow> rat" where
  "pow2 k = (if k \<ge> 0 then 2 ^ nat k else 1 / 2 ^ nat (- k))"

text \<open>The number of binary digits of a positive integer.\<close>

function bit_length :: "int \<Rightarrow> nat" where
  "bit_length a = (if a \<le> 0 then 0 else Suc (bit_length (a div 2)))"
  by pat_completeness auto
termination
  by (relation "measure nat") simp_all

text \<open>For \<open>x = a / b\<close> in lowest terms, the difference \<open>d\<close> of the digit counts of \<open>a\<close> and
  \<open>b\<close> has \<open>2 ^ (d - 1) < x < 2 ^ (d + 1)\<close>; so the exponent is \<open>d\<close> or \<open>d - 1\<close>.\<close>

definition binary_exponent :: "rat \<Rightarrow> int" where
  "binary_exponent x =
     (let (a, b) = quotient_of x;
          d = int (bit_length a) - int (bit_length b)
      in if pow2 d \<le> x then d else d - 1)"

definition round_half_even :: "rat \<Rightarrow> int" where
  "round_half_even x =
     (let f = \<lfloor>x\<rfloor>; r = x - of_int f
      in if r < 1 / 2 then f else if r > 1 / 2 then f + 1 else if even f then f else f + 1)"

definition round_to_double :: "rat \<Rightarrow> jsnum" where
  "round_to_double r =
     (if r = 0 then Fin 0
      else
        (let e = max (binary_exponent \<bar>r\<bar>) (- 1022);
             q = pow2 (e - 52);
             v = of_int (round_half_even (\<bar>r\<bar> / q)) * q
         in if v \<ge> 2 ^ 1024 then (if r < 0 then NegInf else PosInf)
            else Fin (if r < 0 then - v else v)))"

definition scale10 :: "rat \<Rightarrow> int \<Rightarrow> rat" where
  "scale10 m e = (if e \<ge> 0 then m * 10 ^ nat e else m / 10 ^ nat (- e))"

definition parse_exponent :: "string \<Rightarrow> int option" where
  "parse_exponent s =
     (case s of
        [] \<Rightarrow> Some 0
      | c # r \<Rightarrow>
          if c = CHR ''e'' \<or> c = CHR ''E'' then
            (let (neg, ds) = (case r of
                                [] \<Rightarrow> (False, r)
                              | x # xs \<Rightarrow> if x = CHR ''-'' then (True, xs)
                                         else if x = CHR ''+'' then (False, xs) else (False, r))
             in if ds \<noteq> [] \<and> list_all is_digit ds
                then Some (if neg then - int (radix_value 10 ds) else int (radix_value 10 ds))
                else None)
          else None)"

definition parse_unsigned_decimal :: "string \<Rightarrow> rat option" where
  "parse_unsigned_decimal u =
     (let ip = takeWhile is_digit u; r1 = dropWhile is_digit u in
      case r1 of
        [] \<Rightarrow> if ip = [] then None else Some (of_nat (radix_value 10 ip))
      | c # r \<Rightarrow>
          if c = CHR ''.'' then
            (let fp = takeWhile is_digit r; r2 = dropWhile is_digit r in
             if ip = [] \<and> fp = [] then None
             else case parse_exponent r2 of
                    None \<Rightarrow> None
                  | Some e \<Rightarrow>
                      Some (scale10 (of_nat (radix_value 10 ip)
                                     + of_nat (radix_value 10 fp) / 10 ^ length fp) e))
          else if ip = [] then None
          else case parse_exponent r1 of
                 None \<Rightarrow> None
               | Some e \<Rightarrow> Some (scale10 (of_nat (radix_value 10 ip)) e))"

definition parse_radix_literal :: "nat \<Rightarrow> string \<Rightarrow> jsnum" where
  "parse_radix_literal b ds =
     (if ds \<noteq> [] \<and> list_all (is_radix_digit b) ds
      then round_to_double (of_nat (radix_value b ds)) else NaN)"

definition Number :: "string \<Rightarrow> jsnum" where
  "Number s =
     (let t = trim s in
      if t = [] then Fin 0
      else if startsWith t ''0x'' \<or> startsWith t ''0X'' then parse_radix_literal 16 (drop 2 t)
      else if startsWith t ''0o'' \<or> startsWith t ''0O'' then parse_radix_literal 8 (drop 2 t)
      else if startsWith t ''0b'' \<or> startsWith t ''0B'' then parse_radix_literal 2 (drop 2 t)
      else
        (let (neg, u) = (case t of
                           [] \<Rightarrow> (False, t)
                         | x # xs \<Rightarrow> if x = CHR ''-'' then (True, xs)
                                    else if x = CHR ''+'' then (False, xs) else (False, t))
         in if u = ''Infinity'' then (if neg then NegInf else PosInf)
            else case parse_unsigned_decimal u of
                   None \<Rightarrow> NaN
                 | Some r \<Rightarrow> round_to_double (if neg then - r else r)))"

definition isNaN :: "jsnum \<Rightarrow> bool" where
  "isNaN x = (x = NaN)"

fun isFinite :: "jsnum \<Rightarrow> bool" where
  "isFinite (Fin x) = True"
| "isFinite _ = False"

text \<open>Multiplication by a positive finite constant (\<^verbatim>\<open>x * 1000\<close>, and \<^verbatim>\<open>x / 1000\<close> as the
  product with \<open>1 / 1000\<close>: one rounding of the exact quotient), and addition of a finite
  constant.\<close>

fun js_times :: "jsnum \<Rightarrow> rat \<Rightarrow> jsnum" where
  "js_times (Fin x) c = round_to_double (x * c)"
| "js_times x c = x"

fun js_plus :: "jsnum \<Rightarrow> rat \<Rightarrow> jsnum" where
  "js_plus (Fin x) c = round_to_double (x + c)"
| "js_plus x c = x"

text \<open>\<^verbatim>\<open>Math.trunc\<close>, and the integer a finite number truncates to.\<close>

definition trunc_rat :: "rat \<Rightarrow> int" where
  "trunc_rat x = (if x \<ge> 0 then \<lfloor>x\<rfloor> else \<lceil>x\<rceil>)"

fun Math_trunc :: "jsnum \<Rightarrow> jsnum" where
  "Math_trunc (Fin x) = Fin (of_int (trunc_rat x))"
| "Math_trunc x = x"

subsection \<open>The built-in calendar of Date\<close>

text \<open>
  Time values are integers (milliseconds since the epoch, UTC). The functions are those
  of the language definition: \<^verbatim>\<open>Day\<close>, \<^verbatim>\<open>DayFromYear\<close>, \<^verbatim>\<open>YearFromTime\<close>, \<^verbatim>\<open>MonthFromTime\<close>,
  \<^verbatim>\<open>DateFromTime\<close>, \<^verbatim>\<open>MakeDay\<close>, \<^verbatim>\<open>MakeDate\<close>, \<^verbatim>\<open>MakeFullYear\<close>, \<^verbatim>\<open>TimeClip\<close>.
\<close>

definition msPerDay :: int where
  "msPerDay = 86400000"

definition Day :: "int \<Rightarrow> int" where
  "Day t = t div msPerDay"

definition TimeWithinDay :: "int \<Rightarrow> int" where
  "TimeWithinDay t = t mod msPerDay"

definition DayFromYear :: "int \<Rightarrow> int" where
  "DayFromYear y = 365 * (y - 1970) + (y - 1969) div 4 - (y - 1901) div 100 + (y - 1601) div 400"

definition leap_year :: "int \<Rightarrow> bool" where
  "leap_year y = (y mod 4 = 0 \<and> (y mod 100 \<noteq> 0 \<or> y mod 400 = 0))"

definition DaysInYear :: "int \<Rightarrow> int" where
  "DaysInYear y = (if leap_year y then 366 else 365)"

lemma div_succ:
  fixes x k :: int
  assumes "k > 1"
  shows "(x + 1) div k = x div k + (if (x + 1) mod k = 0 then 1 else 0)"
proof -
  have r: "0 \<le> x mod k" "x mod k < k" using assms by simp_all
  have e: "x + 1 = k * (x div k) + (x mod k + 1)" by simp
  show ?thesis
  proof (cases "x mod k + 1 = k")
    case True
    then have "x + 1 = k * (x div k + 1)" using e by (simp add: algebra_simps)
    then show ?thesis using assms by (metis add_cancel_right_right mod_mult_self1_is_0 nonzero_mult_div_cancel_left not_one_less_zero)
  next
    case False
    with r have lt: "x mod k + 1 < k" by simp
    have "(x + 1) div k = x div k" 
      by (metis e r(1) lt add.commute add_nonneg_nonneg div_mult_self2 div_pos_pos_trivial zero_le_one add_cancel_right_left assms not_one_less_zero)
    moreover have "(x + 1) mod k = x mod k + 1"
      by (metis e r(1) lt add.commute add_nonneg_nonneg mod_mult_self2 mod_pos_pos_trivial zero_le_one)
    ultimately show ?thesis using r by simp
  qed
qed

lemma DayFromYear_Suc: "DayFromYear (y + 1) = DayFromYear y + DaysInYear y"
proof -
  have m4: "(y - 1969 + 1) mod 4 = y mod 4"
    using mod_mult_self2 [of "y - 1968" 4 492] by simp
  have m100: "(y - 1901 + 1) mod 100 = y mod 100"
    using mod_mult_self2 [of "y - 1900" 100 19] by simp
  have m400: "(y - 1601 + 1) mod 400 = y mod 400"
    using mod_mult_self2 [of "y - 1600" 400 4] by simp
  have a: "(y + 1 - 1969) div 4 = (y - 1969) div 4 + (if y mod 4 = 0 then 1 else 0)"
    using div_succ [of 4 "y - 1969"] m4 by (simp add: algebra_simps)
  have b: "(y + 1 - 1901) div 100 = (y - 1901) div 100 + (if y mod 100 = 0 then 1 else 0)"
    using div_succ [of 100 "y - 1901"] m100 by (simp add: algebra_simps)
  have c: "(y + 1 - 1601) div 400 = (y - 1601) div 400 + (if y mod 400 = 0 then 1 else 0)"
    using div_succ [of 400 "y - 1601"] m400 by (simp add: algebra_simps)
  have i1: "y mod 100 = 0 \<Longrightarrow> y mod 4 = 0"
    using mod_mod_cancel [of 4 100 y] by simp
  have i2: "y mod 400 = 0 \<Longrightarrow> y mod 100 = 0"
    using mod_mod_cancel [of 100 400 y] by simp
  have F: "DayFromYear (y + 1) = DayFromYear y + 365 + (if y mod 4 = 0 then 1 else 0)
             - (if y mod 100 = 0 then 1 else 0) + (if y mod 400 = 0 then 1 else 0)"
    unfolding DayFromYear_def a b c by (simp add: algebra_simps)
  show ?thesis
  proof (cases "y mod 4 = 0")
    case False
    with i1 have n100: "y mod 100 \<noteq> 0" by auto
    with i2 have "y mod 400 \<noteq> 0" by auto
    note n100 this
    with False show ?thesis by (simp add: F DaysInYear_def leap_year_def)
  next
    case m4: True
    show ?thesis
    proof (cases "y mod 100 = 0")
      case False
      with i2 have "y mod 400 \<noteq> 0" by auto
      with m4 False show ?thesis by (simp add: F DaysInYear_def leap_year_def)
    next
      case True
      with m4 show ?thesis by (cases "y mod 400 = 0") (simp_all add: F DaysInYear_def leap_year_def)
    qed
  qed
qed

text \<open>The largest year whose first day is not after day \<open>d\<close>, searched upwards from \<open>y\<close>.\<close>

function year_from :: "int \<Rightarrow> int \<Rightarrow> int" where
  "year_from d y = (if DayFromYear (y + 1) \<le> d then year_from d (y + 1) else y)"
  by pat_completeness auto
termination
proof (relation "measure (\<lambda>(d, y). nat (d + 1 - DayFromYear (y + 1)))")
  show "wf (measure (\<lambda>(d, y). nat (d + 1 - DayFromYear (y + 1))))" by simp
next
  fix d y :: int
  assume "DayFromYear (y + 1) \<le> d"
  moreover have "DayFromYear (y + 1 + 1) = DayFromYear (y + 1) + DaysInYear (y + 1)"
    by (rule DayFromYear_Suc)
  moreover have "DaysInYear (y + 1) > 0" by (simp add: DaysInYear_def)
  ultimately show "((d, y + 1), (d, y)) \<in> measure (\<lambda>(d, y). nat (d + 1 - DayFromYear (y + 1)))"
    by simp
qed

definition YearFromDay :: "int \<Rightarrow> int" where
  "YearFromDay d = year_from d (if d \<ge> 0 then 1970 + d div 366 else 1970 + d div 365)"

definition YearFromTime :: "int \<Rightarrow> int" where
  "YearFromTime t = YearFromDay (Day t)"

definition InLeapYear :: "int \<Rightarrow> int" where
  "InLeapYear t = (if DaysInYear (YearFromTime t) = 366 then 1 else 0)"

definition DayWithinYear :: "int \<Rightarrow> int" where
  "DayWithinYear t = Day t - DayFromYear (YearFromTime t)"

text \<open>The day of the year on which month \<open>m\<close> (0 to 11) starts.\<close>

definition month_start :: "int \<Rightarrow> int \<Rightarrow> int" where
  "month_start leap m =
     (if m = 0 then 0 else if m = 1 then 31 else if m = 2 then 59 + leap
      else if m = 3 then 90 + leap else if m = 4 then 120 + leap else if m = 5 then 151 + leap
      else if m = 6 then 181 + leap else if m = 7 then 212 + leap else if m = 8 then 243 + leap
      else if m = 9 then 273 + leap else if m = 10 then 304 + leap else 334 + leap)"

definition MonthFromTime :: "int \<Rightarrow> int" where
  "MonthFromTime t =
     (let d = DayWithinYear t; leap = InLeapYear t in
      if d < 31 then 0 else if d < 59 + leap then 1 else if d < 90 + leap then 2
      else if d < 120 + leap then 3 else if d < 151 + leap then 4 else if d < 181 + leap then 5
      else if d < 212 + leap then 6 else if d < 243 + leap then 7 else if d < 273 + leap then 8
      else if d < 304 + leap then 9 else if d < 334 + leap then 10 else 11)"

definition DateFromTime :: "int \<Rightarrow> int" where
  "DateFromTime t = DayWithinYear t - month_start (InLeapYear t) (MonthFromTime t) + 1"

fun ToIntegerOrInfinity :: "jsnum \<Rightarrow> jsnum" where
  "ToIntegerOrInfinity NaN = Fin 0"
| "ToIntegerOrInfinity x = Math_trunc x"

fun MakeFullYear :: "jsnum \<Rightarrow> jsnum" where
  "MakeFullYear NaN = NaN"
| "MakeFullYear (Fin y) =
     (let truncated = trunc_rat y in
      if 0 \<le> truncated \<and> truncated \<le> 99 then Fin (of_int (1900 + truncated))
      else Fin (of_int truncated))"
| "MakeFullYear x = x"

definition MakeDay_int :: "int \<Rightarrow> int \<Rightarrow> int \<Rightarrow> int" where
  "MakeDay_int y m dt =
     (let ym = y + m div 12; mn = m mod 12
      in DayFromYear ym + month_start (if DaysInYear ym = 366 then 1 else 0) mn + dt - 1)"

fun MakeDay :: "jsnum \<Rightarrow> jsnum \<Rightarrow> jsnum \<Rightarrow> jsnum" where
  "MakeDay (Fin year) (Fin month) (Fin date) =
     Fin (of_int (MakeDay_int (trunc_rat year) (trunc_rat month) (trunc_rat date)))"
| "MakeDay _ _ _ = NaN"

fun MakeDate :: "jsnum \<Rightarrow> int \<Rightarrow> jsnum" where
  "MakeDate (Fin day) time = Fin (day * of_int msPerDay + of_int time)"
| "MakeDate _ _ = NaN"

fun TimeClip :: "jsnum \<Rightarrow> jsnum" where
  "TimeClip (Fin time) = (if \<bar>time\<bar> > 8640000000000000 then NaN else Fin (of_int (trunc_rat time)))"
| "TimeClip _ = NaN"

text \<open>\<^verbatim>\<open>Date.UTC(year, month, date)\<close>\<close>

definition Date_UTC :: "jsnum \<Rightarrow> jsnum \<Rightarrow> jsnum \<Rightarrow> jsnum" where
  "Date_UTC year month date =
     (let yr = MakeFullYear year in TimeClip (MakeDate (MakeDay yr month date) 0))"

text \<open>A Date object holds a time value: NaN (an invalid date) or an integer.\<close>

datatype Date = InvalidDate | DateMs int

fun new_Date :: "jsnum \<Rightarrow> Date" where
  "new_Date v = (case TimeClip v of Fin t \<Rightarrow> DateMs (trunc_rat t) | _ \<Rightarrow> InvalidDate)"

subsection \<open>Upload dates\<close>

definition slice :: "string \<Rightarrow> nat \<Rightarrow> nat \<Rightarrow> string" where
  "slice s i j = take (j - i) (drop i s)"

text \<open>\<^verbatim>\<open>export function parseUploadDate(uploadDate: string)\<close>\<close>

definition parseUploadDate :: "string \<Rightarrow> jsnum" where
  "parseUploadDate upload_date =
     (if length upload_date \<noteq> 8 then NaN
      else
        (let year = Number (slice upload_date 0 4);
             month = Number (slice upload_date 4 6);
             day = Number (slice upload_date 6 8)
         in if isNaN year \<or> isNaN month \<or> isNaN day \<or>
               js_lt month (num 1) \<or> js_gt month (num 12) \<or>
               js_lt day (num 1) \<or> js_gt day (num 31)
            then NaN
            else js_times (Date_UTC year (js_plus month (- 1)) day) (1 / 1000)))"

subsection \<open>Calendar facts\<close>

lemmas year_from_unfold = year_from.simps
declare year_from.simps [simp del]

lemma year_from_bracket:
  "DayFromYear y \<le> d \<Longrightarrow>
   DayFromYear (year_from d y) \<le> d \<and> d < DayFromYear (year_from d y + 1)"
proof (induction d y rule: year_from.induct)
  case (1 d y)
  show ?case
  proof (cases "DayFromYear (y + 1) \<le> d")
    case True
    with "1.IH" show ?thesis by (subst (1 2) year_from_unfold) simp
  next
    case False
    with "1.prems" show ?thesis by (subst (1 2) year_from_unfold) simp
  qed
qed

lemma DayFromYear_1970: "DayFromYear 1970 = 0"
  by (simp add: DayFromYear_def)

lemma DaysInYear_bounds: "365 \<le> DaysInYear y" "DaysInYear y \<le> 366"
  by (simp_all add: DaysInYear_def)

lemma DayFromYear_after:
  "0 \<le> k \<Longrightarrow> 365 * k \<le> DayFromYear (1970 + k) \<and> DayFromYear (1970 + k) \<le> 366 * k"
proof (induction k rule: int_ge_induct)
  case base
  then show ?case by (simp add: DayFromYear_1970)
next
  case (step i)
  have "DayFromYear (1970 + (i + 1)) = DayFromYear (1970 + i) + DaysInYear (1970 + i)"
    using DayFromYear_Suc [of "1970 + i"] by (simp add: add.assoc)
  with step.IH DaysInYear_bounds [of "1970 + i"] show ?case by (simp add: algebra_simps)
qed

lemma DayFromYear_before:
  "k \<le> 0 \<Longrightarrow> 366 * k \<le> DayFromYear (1970 + k) \<and> DayFromYear (1970 + k) \<le> 365 * k"
proof (induction k rule: int_le_induct)
  case base
  then show ?case by (simp add: DayFromYear_1970)
next
  case (step i)
  have "DayFromYear (1970 + i) = DayFromYear (1970 + (i - 1)) + DaysInYear (1970 + (i - 1))"
    using DayFromYear_Suc [of "1970 + (i - 1)"] by (simp add: algebra_simps)
  with step.IH DaysInYear_bounds [of "1970 + (i - 1)"] show ?case by (simp add: algebra_simps)
qed

lemma YearFromDay_bracket:
  "DayFromYear (YearFromDay d) \<le> d \<and> d < DayFromYear (YearFromDay d + 1)"
proof -
  have "DayFromYear (if d \<ge> 0 then 1970 + d div 366 else 1970 + d div 365) \<le> d"
  proof (cases "d \<ge> 0")
    case True
    then have "0 \<le> d div 366" by simp
    from DayFromYear_after [OF this] have "DayFromYear (1970 + d div 366) \<le> 366 * (d div 366)" by simp
    also have "\<dots> \<le> d" using div_mult_mod_eq [of d 366] pos_mod_sign [of 366 d] by linarith
    finally show ?thesis using True by simp
  next
    case False
    then have "d div 365 \<le> 0"
      using div_mult_mod_eq [of d 365] pos_mod_sign [of 365 d] by linarith
    from DayFromYear_before [OF this] have "DayFromYear (1970 + d div 365) \<le> 365 * (d div 365)" by simp
    also have "\<dots> \<le> d" using div_mult_mod_eq [of d 365] pos_mod_sign [of 365 d] by linarith
    finally show ?thesis using False by simp
  qed
  then show ?thesis unfolding YearFromDay_def by (rule year_from_bracket)
qed

text \<open>
  The calendar as the specification speaks of it: the UTC-midnight epoch seconds of a
  calendar date, counted out in whole years and whole months from 1 January 1970. A day
  of the month past the end of the month runs on into the following month.
\<close>

definition days_in_month :: "int \<Rightarrow> int \<Rightarrow> int" where
  "days_in_month y m =
     (if m = 2 then (if leap_year y then 29 else 28)
      else if m = 4 \<or> m = 6 \<or> m = 9 \<or> m = 11 then 30 else 31)"

definition days_before_year :: "int \<Rightarrow> int" where
  "days_before_year y =
     (if 1970 \<le> y then sum_list (map DaysInYear [1970..y - 1])
      else - sum_list (map DaysInYear [y..1969]))"

definition days_before_month :: "int \<Rightarrow> int \<Rightarrow> int" where
  "days_before_month y m = sum_list (map (days_in_month y) [1..m - 1])"

definition epoch_day :: "int \<Rightarrow> int \<Rightarrow> int \<Rightarrow> int" where
  "epoch_day y m d = days_before_year y + days_before_month y m + (d - 1)"

definition utc_midnight_epoch_seconds :: "int \<Rightarrow> int \<Rightarrow> int \<Rightarrow> int" where
  "utc_midnight_epoch_seconds y m d = 86400 * epoch_day y m d"

lemma days_before_year_after: "0 \<le> k \<Longrightarrow> days_before_year (1970 + k) = DayFromYear (1970 + k)"
proof (induction k rule: int_ge_induct)
  case base
  then show ?case by (simp add: days_before_year_def DayFromYear_1970)
next
  case (step i)
  have "[1970..1970 + (i + 1) - 1] = [1970..1970 + i - 1] @ [1970 + i]"
    using step.hyps upto_rec2 [of 1970 "1970 + i"] by (simp add: algebra_simps)
  moreover have "DayFromYear (1970 + (i + 1)) = DayFromYear (1970 + i) + DaysInYear (1970 + i)"
    using DayFromYear_Suc [of "1970 + i"] by (simp add: add.assoc)
  ultimately show ?case using step by (simp add: days_before_year_def)
qed

lemma days_before_year_before: "k \<le> 0 \<Longrightarrow> days_before_year (1970 + k) = DayFromYear (1970 + k)"
proof (induction k rule: int_le_induct)
  case base
  then show ?case by (simp add: days_before_year_def DayFromYear_1970)
next
  case (step i)
  have "[1970 + (i - 1)..1969] = (1970 + (i - 1)) # [1970 + i..1969]"
    using step.hyps upto_rec1 [of "1970 + (i - 1)" 1969] by (simp add: algebra_simps)
  moreover have "DayFromYear (1970 + i) = DayFromYear (1970 + (i - 1)) + DaysInYear (1970 + (i - 1))"
    using DayFromYear_Suc [of "1970 + (i - 1)"] by (simp add: algebra_simps)
  moreover have "1970 + i \<le> 1969 \<or> i = 0" using step.hyps by auto
  ultimately show ?case using step
    by (auto simp: days_before_year_def DayFromYear_1970)
qed

lemma days_before_year_eq: "days_before_year y = DayFromYear y"
  using days_before_year_after [of "y - 1970"] days_before_year_before [of "y - 1970"]
  by (cases "0 \<le> y - 1970") simp_all

lemma days_before_month_eq:
  assumes "1 \<le> m" "m \<le> 12"
  shows "days_before_month y m = month_start (if DaysInYear y = 366 then 1 else 0) (m - 1)"
proof -
  from assms have "m = 1 \<or> m = 2 \<or> m = 3 \<or> m = 4 \<or> m = 5 \<or> m = 6 \<or> m = 7 \<or> m = 8 \<or>
      m = 9 \<or> m = 10 \<or> m = 11 \<or> m = 12" by arith
  then show ?thesis
    by (elim disjE)
       (simp_all add: days_before_month_def days_in_month_def month_start_def DaysInYear_def
          upto.simps)
qed

lemma MakeDay_int_epoch_day:
  assumes "1 \<le> m" "m \<le> 12"
  shows "MakeDay_int y (m - 1) d = epoch_day y m d"
proof -
  from assms have "(m - 1) div 12 = 0" "(m - 1) mod 12 = m - 1" by simp_all
  then show ?thesis
    by (simp add: MakeDay_int_def epoch_day_def days_before_year_eq days_before_month_eq [OF assms])
qed

subsection \<open>Upload dates: results\<close>

lemma is_digit_iff: "is_digit c \<longleftrightarrow> c \<in> set ''0123456789''"
  by (simp add: is_digit_def is_radix_digit_def digit_value_def)

lemma digit_not_ws: "is_digit c \<Longrightarrow> \<not> is_ws c"
  by (auto simp: is_digit_iff is_ws_def js_whitespace_def)

lemma dropWhile_none: "\<forall>x\<in>set xs. \<not> P x \<Longrightarrow> dropWhile P xs = xs"
  by (cases xs) auto

lemma trim_digits: "list_all is_digit s \<Longrightarrow> trim s = s"
  by (simp add: trim_def dropWhile_none digit_not_ws list_all_iff)

lemma digit_value_less: "is_digit c \<Longrightarrow> (case digit_value c of Some d \<Rightarrow> d | None \<Rightarrow> 0) < 10"
  by (auto simp: is_digit_def is_radix_digit_def split: option.splits)

lemma radix_value_snoc:
  "radix_value b (ds @ [c]) = radix_value b ds * b + (case digit_value c of Some d \<Rightarrow> d | None \<Rightarrow> 0)"
  by (simp add: radix_value_def)

lemma radix_value_bound: "list_all is_digit ds \<Longrightarrow> radix_value 10 ds < 10 ^ length ds"
proof (induction ds rule: rev_induct)
  case Nil
  then show ?case by (simp add: radix_value_def)
next
  case (snoc c ds)
  then have "radix_value 10 ds < 10 ^ length ds" and "(case digit_value c of Some d \<Rightarrow> d | None \<Rightarrow> 0) < 10"
    by (simp_all add: digit_value_less)
  then show ?case unfolding radix_value_snoc by simp
qed

text \<open>An integer below \<open>2 ^ 53\<close> in absolute value is a binary64 number.\<close>

lemmas bit_length_unfold = bit_length.simps
declare bit_length.simps [simp del]

lemma bit_length_le: "a < 2 ^ k \<Longrightarrow> bit_length a \<le> k"
proof (induction k arbitrary: a)
  case 0
  then show ?case by (simp add: bit_length_unfold)
next
  case (Suc k)
  show ?case
  proof (cases "a \<le> 0")
    case True
    then show ?thesis by (simp add: bit_length_unfold)
  next
    case False
    from Suc.prems have "a div 2 < 2 ^ k" by simp
    from Suc.IH [OF this] False show ?thesis by (subst bit_length_unfold) simp
  qed
qed

lemma round_half_even_int [simp]: "round_half_even (of_int z) = z"
  by (simp add: round_half_even_def)

lemma binary_exponent_nat:
  assumes "n < 2 ^ 53"
  shows "binary_exponent (of_nat n) \<le> 52"
proof -
  have q: "quotient_of (of_nat n :: rat) = (int n, 1)"
    using quotient_of_int [of "int n"] by simp
  have one: "bit_length 1 = 1" by (simp add: bit_length_unfold)
  from assms have "int n < 2 ^ 53" using of_nat_less_iff [where 'a = int, of n "2 ^ 53"] by simp
  from bit_length_le [OF this] have "int (bit_length (int n)) - 1 \<le> 52" by simp
  then show ?thesis
    by (simp add: binary_exponent_def q one Let_def)
qed

lemma round_to_double_nat:
  assumes "n < 2 ^ 53"
  shows "round_to_double (of_nat n) = Fin (of_nat n)"
proof (cases "n = 0")
  case True
  then show ?thesis by (simp add: round_to_double_def)
next
  case False
  define e where "e = max (binary_exponent \<bar>of_nat n :: rat\<bar>) (- 1022)"
  define m where "m = nat (52 - e)"
  have "e \<le> 52" using binary_exponent_nat [OF assms] by (simp add: e_def)
  then have q: "pow2 (e - 52) = 1 / 2 ^ m"
    by (cases "e = 52") (simp_all add: pow2_def m_def)
  have "\<bar>of_nat n :: rat\<bar> / pow2 (e - 52) = of_int (int n * 2 ^ m)"
    by (simp add: q)
  then have r: "round_half_even (\<bar>of_nat n :: rat\<bar> / pow2 (e - 52)) = int n * 2 ^ m"
    by (simp only: round_half_even_int)
  have v: "of_int (int n * 2 ^ m) * pow2 (e - 52) = (of_nat n :: rat)"
    by (simp add: q)
  have "(of_nat n :: rat) < of_nat (2 ^ 53)" using assms by (simp only: of_nat_less_iff)
  also have "(of_nat (2 ^ 53) :: rat) \<le> 2 ^ 1024" by simp
  finally have small: "\<not> (2 ^ 1024 \<le> (of_nat n :: rat))" by simp
  from False have nz: "(of_nat n :: rat) \<noteq> 0" by simp
  show ?thesis
    unfolding round_to_double_def Let_def e_def [symmetric] r v
    using small nz by simp
qed

lemma round_to_double_neg:
  "round_to_double (- r) =
     (case round_to_double r of
        Fin v \<Rightarrow> Fin (- v) | PosInf \<Rightarrow> NegInf | NegInf \<Rightarrow> PosInf | NaN \<Rightarrow> NaN)"
  by (cases "r = 0"; cases "r < 0") (auto simp: round_to_double_def Let_def)

lemma round_to_double_int:
  assumes "\<bar>i\<bar> < 2 ^ 53"
  shows "round_to_double (of_int i) = Fin (of_int i)"
proof (cases "0 \<le> i")
  case True
  then have "nat i < 2 ^ 53" using assms by (simp add: nat_less_iff)
  from round_to_double_nat [OF this] True show ?thesis by simp
next
  case False
  then have "nat (- i) < 2 ^ 53" using assms by (simp add: nat_less_iff)
  from round_to_double_nat [OF this] False
  have "round_to_double (of_int (- i)) = Fin (of_int (- i))" by simp
  then show ?thesis using round_to_double_neg [of "of_int (- i)"] by simp
qed

lemma Number_digits:
  assumes "ds \<noteq> []" "list_all is_digit ds" "length ds \<le> 4"
  shows "Number ds = Fin (of_nat (radix_value 10 ds))"
proof -
  obtain c cs where ds: "ds = c # cs" using assms(1) by (cases ds) auto
  have c: "c \<in> set ''0123456789''" using assms(2) ds by (simp add: is_digit_iff)
  have cs: "cs \<noteq> [] \<Longrightarrow> hd cs \<in> set ''0123456789''"
    using assms(2) ds by (cases cs) (simp_all add: is_digit_iff)
  have nopre: "\<not> startsWith ds [CHR ''0'', x]" if "x \<notin> set ''0123456789''" for x
    using cs that unfolding ds by (cases cs) auto
  have t: "takeWhile is_digit ds = ds" "dropWhile is_digit ds = []"
    using assms(2) by (simp_all add: list_all_iff)
  have pud: "parse_unsigned_decimal ds = Some (of_nat (radix_value 10 ds))"
    using assms(1) by (simp add: parse_unsigned_decimal_def t)
  have "radix_value 10 ds < 10 ^ length ds" by (rule radix_value_bound [OF assms(2)])
  also have "\<dots> \<le> 10 ^ 4" using assms(3) power_increasing [of "length ds" 4 "10::nat"] by simp
  finally have small: "radix_value 10 ds < 10000" by simp
  have rd: "round_to_double (of_nat (radix_value 10 ds)) = Fin (of_nat (radix_value 10 ds))"
  proof (rule round_to_double_nat)
    from small show "radix_value 10 ds < 2 ^ 53" by simp
  qed
  have inf: "ds \<noteq> ''Infinity''" using c ds by auto
  have sgn: "c \<noteq> CHR ''-''" "c \<noteq> CHR ''+''" using c by auto
  show ?thesis
    unfolding Number_def trim_digits [OF assms(2)] Let_def
    using assms(1) nopre [of "CHR ''x''"] nopre [of "CHR ''X''"] nopre [of "CHR ''o''"]
      nopre [of "CHR ''O''"] nopre [of "CHR ''b''"] nopre [of "CHR ''B''"] inf sgn
    by (simp add: ds [symmetric] pud rd) (simp add: ds pud [unfolded ds] rd [unfolded ds])
qed

text \<open>The value of a string of decimal digits, and the year \<^verbatim>\<open>Date.UTC\<close> takes a
  year argument to mean.\<close>

definition decimal :: "string \<Rightarrow> int" where
  "decimal ds = int (radix_value 10 ds)"

definition full_year :: "int \<Rightarrow> int" where
  "full_year y = (if 0 \<le> y \<and> y \<le> 99 then 1900 + y else y)"

lemma trunc_rat_of_int [simp]: "trunc_rat (of_int i) = i"
  by (simp add: trunc_rat_def)

lemma trunc_rat_of_nat [simp]: "trunc_rat (of_nat n) = int n"
  using trunc_rat_of_int [of "int n"] by simp

lemma DayFromYear_four_digit:
  assumes "100 \<le> y" "y \<le> 9999"
  shows "- 700000 \<le> DayFromYear y \<and> DayFromYear y \<le> 3000000"
proof (cases "1970 \<le> y")
  case True
  with DayFromYear_after [of "y - 1970"] assms show ?thesis by simp
next
  case False
  with DayFromYear_before [of "y - 1970"] assms show ?thesis by simp
qed

lemma month_start_bounds: "0 \<le> leap \<Longrightarrow> leap \<le> 1 \<Longrightarrow> 0 \<le> month_start leap m \<and> month_start leap m \<le> 335"
  by (simp add: month_start_def)

lemma epoch_day_four_digit:
  assumes y: "0 \<le> y" "y \<le> 9999" and m: "1 \<le> m" "m \<le> 12" and d: "1 \<le> d" "d \<le> 31"
  shows "- 700000 \<le> epoch_day (full_year y) m d \<and> epoch_day (full_year y) m d \<le> 3000400"
proof -
  have r: "100 \<le> full_year y" "full_year y \<le> 9999"
    using y by (simp_all add: full_year_def)
  have ed: "epoch_day (full_year y) m d =
            DayFromYear (full_year y) + month_start (if DaysInYear (full_year y) = 366 then 1 else 0) (m - 1) + (d - 1)"
    by (simp add: epoch_day_def days_before_year_eq days_before_month_eq [OF m])
  show ?thesis
    using DayFromYear_four_digit [OF r]
      month_start_bounds [of "if DaysInYear (full_year y) = 366 then 1 else 0" "m - 1"] d
    unfolding ed by auto
qed

lemma Date_UTC_four_digit:
  assumes y: "0 \<le> y" "y \<le> 9999" and m: "1 \<le> m" "m \<le> 12" and d: "1 \<le> d" "d \<le> 31"
  shows "Date_UTC (Fin (of_int y)) (Fin (of_int m - 1)) (Fin (of_int d)) =
         Fin (of_int (epoch_day (full_year y) m d * msPerDay))"
proof -
  have fy: "MakeFullYear (Fin (of_int y)) = Fin (of_int (full_year y))"
    by (simp add: full_year_def)
  have m1: "trunc_rat (of_int m - 1) = m - 1"
    using trunc_rat_of_int [of "m - 1"] by simp
  have md: "MakeDay (Fin (of_int (full_year y))) (Fin (of_int m - 1)) (Fin (of_int d)) =
            Fin (of_int (epoch_day (full_year y) m d))"
    by (simp add: m1 MakeDay_int_epoch_day [OF m])
  have "- 700000 \<le> epoch_day (full_year y) m d \<and> epoch_day (full_year y) m d \<le> 3000400"
    by (rule epoch_day_four_digit [OF y m d])
  then have "\<bar>epoch_day (full_year y) m d * msPerDay\<bar> \<le> 8640000000000000"
    by (simp add: msPerDay_def abs_le_iff)
  then have "\<bar>of_int (epoch_day (full_year y) m d * msPerDay) :: rat\<bar> \<le> of_int 8640000000000000"
    by (simp only: of_int_abs [symmetric] of_int_le_iff)
  then have clip: "\<not> \<bar>of_int (epoch_day (full_year y) m d) * of_int msPerDay :: rat\<bar> > 8640000000000000"
    by simp
  show ?thesis
    unfolding Date_UTC_def Let_def fy md
    using clip by (simp del: of_int_mult add: of_int_mult [symmetric])
qed

lemma slice_digits:
  "list_all is_digit s \<Longrightarrow> list_all is_digit (slice s i j)"
  by (auto simp: slice_def list_all_iff dest: in_set_takeD in_set_dropD)

lemma parseUploadDate_numbers:
  assumes len: "length s = 8"
    and ny: "Number (slice s 0 4) = Fin (of_int y)"
    and nm: "Number (slice s 4 6) = Fin (of_int m)"
    and nd: "Number (slice s 6 8) = Fin (of_int d)"
    and y: "0 \<le> y" "y \<le> 9999" and m: "1 \<le> m" "m \<le> 12" and d: "1 \<le> d" "d \<le> 31"
  shows "parseUploadDate s = Fin (of_int (utc_midnight_epoch_seconds (full_year y) m d))"
proof -
  have utc: "Date_UTC (Fin (of_int y)) (Fin (of_int m - 1)) (Fin (of_int d)) =
             Fin (of_int (epoch_day (full_year y) m d * msPerDay))"
    by (rule Date_UTC_four_digit [OF y m d])
  have ok: "\<not> js_lt (Fin (of_int m)) (num 1)" "\<not> js_gt (Fin (of_int m)) (num 12)"
       "\<not> js_lt (Fin (of_int d)) (num 1)" "\<not> js_gt (Fin (of_int d)) (num 31)"
    using m d by (simp_all add: js_gt_def num_def)
  have m1: "round_to_double (of_int m - 1) = Fin (of_int m - 1)"
    using round_to_double_int [of "m - 1"] m by simp
  have "- 700000 \<le> epoch_day (full_year y) m d \<and> epoch_day (full_year y) m d \<le> 3000400"
    by (rule epoch_day_four_digit [OF y m d])
  then have "\<bar>utc_midnight_epoch_seconds (full_year y) m d\<bar> < 2 ^ 53"
    by (simp add: utc_midnight_epoch_seconds_def abs_less_iff)
  then have exact: "round_to_double (of_int (utc_midnight_epoch_seconds (full_year y) m d)) =
                    Fin (of_int (utc_midnight_epoch_seconds (full_year y) m d))"
    by (rule round_to_double_int)
  have "parseUploadDate s =
        js_times (Date_UTC (Fin (of_int y)) (Fin (of_int m - 1)) (Fin (of_int d))) (1 / 1000)"
    using len ok by (simp add: parseUploadDate_def ny nm nd isNaN_def Let_def m1)
  also have "\<dots> = round_to_double (of_int (epoch_day (full_year y) m d * msPerDay) * (1 / 1000))"
    unfolding utc by simp
  also have "of_int (epoch_day (full_year y) m d * msPerDay) * (1 / 1000 :: rat) =
             of_int (utc_midnight_epoch_seconds (full_year y) m d)"
    by (simp add: msPerDay_def utc_midnight_epoch_seconds_def)
  finally show ?thesis by (simp only: exact)
qed

lemma parseUploadDate_digits:
  assumes len: "length s = 8" and dig: "list_all is_digit s"
    and m: "1 \<le> decimal (slice s 4 6)" "decimal (slice s 4 6) \<le> 12"
    and d: "1 \<le> decimal (slice s 6 8)" "decimal (slice s 6 8) \<le> 31"
  shows "parseUploadDate s =
         Fin (of_int (utc_midnight_epoch_seconds (full_year (decimal (slice s 0 4)))
                        (decimal (slice s 4 6)) (decimal (slice s 6 8))))"
proof -
  let ?y = "decimal (slice s 0 4)" and ?m = "decimal (slice s 4 6)" and ?d = "decimal (slice s 6 8)"
  from len have ne: "s \<noteq> []" by auto
  have ny: "Number (slice s 0 4) = Fin (of_int ?y)"
    using Number_digits [of "slice s 0 4"] slice_digits [OF dig, of 0 4] len ne
    by (simp add: slice_def decimal_def)
  have nm: "Number (slice s 4 6) = Fin (of_int ?m)"
    using Number_digits [of "slice s 4 6"] slice_digits [OF dig, of 4 6] len ne
    by (simp add: slice_def decimal_def)
  have nd: "Number (slice s 6 8) = Fin (of_int ?d)"
    using Number_digits [of "slice s 6 8"] slice_digits [OF dig, of 6 8] len ne
    by (simp add: slice_def decimal_def)
  have "radix_value 10 (slice s 0 4) < 10 ^ length (slice s 0 4)"
    by (rule radix_value_bound [OF slice_digits [OF dig]])
  then have y: "0 \<le> ?y" "?y \<le> 9999"
    using len by (simp_all add: decimal_def slice_def)
  show ?thesis by (rule parseUploadDate_numbers [OF len ny nm nd y m d])
qed

text \<open>
  Where the code does what is expected of it. For a string of eight decimal digits whose
  month is in 1..12 and whose day is in 1..31, \<^verbatim>\<open>parseUploadDate\<close> returns the UTC-midnight
  epoch seconds of the calendar date with that month and day (a day past the end of the
  month rolling over) in the year \<open>full_year y\<close>, which is the year \<open>y\<close> of the string from
  0100 on. The three tests that make it return NaN are those of its guard.
\<close>

lemma parseUploadDate_contract:
  "(length s = 8 \<and> list_all is_digit s \<and>
    1 \<le> decimal (slice s 4 6) \<and> decimal (slice s 4 6) \<le> 12 \<and>
    1 \<le> decimal (slice s 6 8) \<and> decimal (slice s 6 8) \<le> 31 \<longrightarrow>
      parseUploadDate s =
        Fin (of_int (utc_midnight_epoch_seconds (full_year (decimal (slice s 0 4)))
                       (decimal (slice s 4 6)) (decimal (slice s 6 8)))))
   \<and> (length s \<noteq> 8 \<longrightarrow> parseUploadDate s = NaN)
   \<and> (Number (slice s 0 4) = NaN \<or> Number (slice s 4 6) = NaN \<or> Number (slice s 6 8) = NaN
        \<longrightarrow> parseUploadDate s = NaN)
   \<and> (js_lt (Number (slice s 4 6)) (num 1) \<or> js_gt (Number (slice s 4 6)) (num 12) \<or>
        js_lt (Number (slice s 6 8)) (num 1) \<or> js_gt (Number (slice s 6 8)) (num 31)
        \<longrightarrow> parseUploadDate s = NaN)"
  using parseUploadDate_digits [of s]
  by (auto simp: parseUploadDate_def isNaN_def Let_def)

lemma utc_midnight_closed:
  "1 \<le> m \<Longrightarrow> m \<le> 12 \<Longrightarrow>
   utc_midnight_epoch_seconds y m d =
     86400 * (DayFromYear y + month_start (if DaysInYear y = 366 then 1 else 0) (m - 1) + (d - 1))"
  by (simp add: utc_midnight_epoch_seconds_def epoch_day_def days_before_year_eq days_before_month_eq)

lemmas digits_eval = slice_def decimal_def radix_value_def digit_value_def is_digit_def
  is_radix_digit_def full_year_def

lemmas calendar_eval = DayFromYear_def DaysInYear_def leap_year_def month_start_def

lemma parseUploadDate_examples:
  "parseUploadDate ''20240115'' = Fin 1705276800 \<and>
   parseUploadDate ''20230231'' = Fin 1677801600 \<and>
   parseUploadDate ''2024011'' = NaN \<and>
   parseUploadDate ''2024ab15'' = NaN \<and>
   parseUploadDate ''20241301'' = NaN"
proof -
  have h1: "length ''20240115'' = 8 \<and> list_all is_digit ''20240115'' \<and>
    1 \<le> decimal (slice ''20240115'' 4 6) \<and> decimal (slice ''20240115'' 4 6) \<le> 12 \<and>
    1 \<le> decimal (slice ''20240115'' 6 8) \<and> decimal (slice ''20240115'' 6 8) \<le> 31"
    by (simp add: digits_eval)
  have v1: "utc_midnight_epoch_seconds (full_year (decimal (slice ''20240115'' 0 4)))
              (decimal (slice ''20240115'' 4 6)) (decimal (slice ''20240115'' 6 8)) = 1705276800"
    by (simp add: digits_eval utc_midnight_closed calendar_eval)
  have h2: "length ''20230231'' = 8 \<and> list_all is_digit ''20230231'' \<and>
    1 \<le> decimal (slice ''20230231'' 4 6) \<and> decimal (slice ''20230231'' 4 6) \<le> 12 \<and>
    1 \<le> decimal (slice ''20230231'' 6 8) \<and> decimal (slice ''20230231'' 6 8) \<le> 31"
    by (simp add: digits_eval)
  have v2: "utc_midnight_epoch_seconds (full_year (decimal (slice ''20230231'' 0 4)))
              (decimal (slice ''20230231'' 4 6)) (decimal (slice ''20230231'' 6 8)) = 1677801600"
    by (simp add: digits_eval utc_midnight_closed calendar_eval)
  have h3: "length ''2024011'' \<noteq> 8" by simp
  have h4: "Number (slice ''2024ab15'' 4 6) = NaN"
    by (simp add: slice_def Number_def trim_def is_ws_def js_whitespace_def
        parse_unsigned_decimal_def is_digit_def is_radix_digit_def digit_value_def Let_def)
  have h5: "js_gt (Number (slice ''20241301'' 4 6)) (num 12)"
    by (simp add: slice_def Number_digits digits_eval js_gt_def num_def)
  show ?thesis
    using parseUploadDate_contract [of "''20240115''"] parseUploadDate_contract [of "''20230231''"]
      parseUploadDate_contract [of "''2024011''"] parseUploadDate_contract [of "''2024ab15''"]
      parseUploadDate_contract [of "''20241301''"] h1 h2 h3 h4 h5
    unfolding v1 v2 by simp
qed

subsection \<open>Date objects\<close>

text \<open>The getters answer \<open>None\<close> for NaN (an invalid date).\<close>

fun getUTCFullYear :: "Date \<Rightarrow> int option" where
  "getUTCFullYear InvalidDate = None"
| "getUTCFullYear (DateMs t) = Some (YearFromTime t)"

fun getUTCMonth :: "Date \<Rightarrow> int option" where
  "getUTCMonth InvalidDate = None"
| "getUTCMonth (DateMs t) = Some (MonthFromTime t)"

fun getUTCDate :: "Date \<Rightarrow> int option" where
  "getUTCDate InvalidDate = None"
| "getUTCDate (DateMs t) = Some (DateFromTime t)"

fun setUTCDate :: "Date \<Rightarrow> int option \<Rightarrow> Date" where
  "setUTCDate InvalidDate dt = InvalidDate"
| "setUTCDate (DateMs t) dt =
     new_Date (MakeDate (MakeDay (Fin (of_int (YearFromTime t))) (Fin (of_int (MonthFromTime t)))
                           (case dt of None \<Rightarrow> NaN | Some n \<Rightarrow> Fin (of_int n)))
                 (TimeWithinDay t))"

text \<open>The decimal text of an integer, and of a getter's answer inside a template literal.\<close>

definition digit_char :: "nat \<Rightarrow> char" where
  "digit_char n = ''0123456789'' ! n"

fun nat_to_string :: "nat \<Rightarrow> string" where
  "nat_to_string n =
     (if n < 10 then [digit_char n] else nat_to_string (n div 10) @ [digit_char (n mod 10)])"

lemmas nat_to_string_unfold = nat_to_string.simps
declare nat_to_string.simps [simp del]

definition int_to_string :: "int \<Rightarrow> string" where
  "int_to_string i = (if i < 0 then CHR ''-'' # nat_to_string (nat (- i)) else nat_to_string (nat i))"

definition number_text :: "int option \<Rightarrow> string" where
  "number_text v = (case v of None \<Rightarrow> ''NaN'' | Some i \<Rightarrow> int_to_string i)"

definition padStart2 :: "string \<Rightarrow> string" where
  "padStart2 s = (if length s < 2 then replicate (2 - length s) (CHR ''0'') @ s else s)"

subsection \<open>Strategy planner: the date cutoff\<close>

record SortKeyInfo =
  sortKey_uploadDate :: "string option"
  sortKey_uploadedAt :: "Date option"

text \<open>\<^verbatim>\<open>function uploadDateStringToDate(uploadDate?: string)\<close>\<close>

definition uploadDateStringToDate :: "string option \<Rightarrow> Date option" where
  "uploadDateStringToDate upload_date =
     (case upload_date of
        None \<Rightarrow> None
      | Some s \<Rightarrow>
          if s = [] then None
          else (let seconds = parseUploadDate s in
                if isNaN seconds then None else Some (new_Date (js_times seconds 1000))))"

text \<open>\<^verbatim>\<open>function formatDateAsYyyymmdd(date: Date)\<close>\<close>

definition formatDateAsYyyymmdd :: "Date \<Rightarrow> string" where
  "formatDateAsYyyymmdd date =
     (let year = getUTCFullYear date;
          month = padStart2 (number_text (map_option (\<lambda>m. m + 1) (getUTCMonth date)));
          day = padStart2 (number_text (getUTCDate date))
      in number_text year @ month @ day)"

text \<open>
  \<^verbatim>\<open>function computeDateAfter(sortKey?: SortKeyInfo)\<close>. The baseline is
  \<^verbatim>\<open>(sortKey.uploadDate && uploadDateStringToDate(sortKey.uploadDate)) ?? sortKey.uploadedAt ?? null\<close>:
  \<open>Inl\<close> is the empty string, which \<^verbatim>\<open>&&\<close> passes on and \<^verbatim>\<open>??\<close> keeps.
\<close>

definition computeDateAfter :: "SortKeyInfo option \<Rightarrow> string option" where
  "computeDateAfter sortKey =
     (case sortKey of
        None \<Rightarrow> None
      | Some sk \<Rightarrow>
          (let fromString =
                 (case sortKey_uploadDate sk of
                    None \<Rightarrow> None
                  | Some s \<Rightarrow> if s = [] then Some (Inl s)
                             else map_option Inr (uploadDateStringToDate (Some s)));
               baseline =
                 (case fromString of
                    Some b \<Rightarrow> Some b
                  | None \<Rightarrow> map_option Inr (sortKey_uploadedAt sk))
           in case baseline of
                None \<Rightarrow> None
              | Some (Inl s) \<Rightarrow> None
              | Some (Inr d) \<Rightarrow>
                  (let cutoff = d;
                       cutoff = setUTCDate cutoff (map_option (\<lambda>n. n - 1) (getUTCDate cutoff))
                   in Some (formatDateAsYyyymmdd cutoff))))"

text \<open>
  The cutoff the specification describes: one calendar day before the later of the date
  parsed from the newest stored upload-date string and the newest stored uploaded-at
  instant.
\<close>

fun one_day_before :: "Date \<Rightarrow> Date" where
  "one_day_before InvalidDate = InvalidDate"
| "one_day_before (DateMs t) =
     (if \<bar>t - msPerDay\<bar> > 8640000000000000 then InvalidDate else DateMs (t - msPerDay))"

fun later_date :: "Date \<Rightarrow> Date \<Rightarrow> Date" where
  "later_date (DateMs a) (DateMs b) = DateMs (max a b)"
| "later_date _ _ = InvalidDate"

definition cutoff_later_spec :: "SortKeyInfo \<Rightarrow> string option" where
  "cutoff_later_spec sk =
     (case (uploadDateStringToDate (sortKey_uploadDate sk), sortKey_uploadedAt sk) of
        (None, None) \<Rightarrow> None
      | (Some a, None) \<Rightarrow> Some (formatDateAsYyyymmdd (one_day_before a))
      | (None, Some b) \<Rightarrow> Some (formatDateAsYyyymmdd (one_day_before b))
      | (Some a, Some b) \<Rightarrow> Some (formatDateAsYyyymmdd (one_day_before (later_date a b))))"

subsection \<open>Strategy planner: the date cutoff, results\<close>

lemma MonthFromTime_range: "0 \<le> MonthFromTime t \<and> MonthFromTime t \<le> 11"
  by (simp add: MonthFromTime_def Let_def)

lemma MakeDay_int_previous:
  "MakeDay_int (YearFromTime t) (MonthFromTime t) (DateFromTime t - 1) = Day t - 1"
proof -
  from MonthFromTime_range [of t]
  have "MonthFromTime t div 12 = 0" "MonthFromTime t mod 12 = MonthFromTime t" by simp_all
  then show ?thesis
    by (simp add: MakeDay_int_def DateFromTime_def DayWithinYear_def InLeapYear_def)
qed

lemma new_Date_int:
  "new_Date (Fin (of_int x)) = (if \<bar>x\<bar> > 8640000000000000 then InvalidDate else DateMs x)"
proof -
  have "(\<bar>of_int x :: rat\<bar> > 8640000000000000) = (\<bar>x\<bar> > 8640000000000000)"
    using of_int_less_iff [where 'a = rat, of 8640000000000000 "\<bar>x\<bar>"] by simp
  then show ?thesis by simp
qed

lemma setUTCDate_previous:
  "setUTCDate d (map_option (\<lambda>n. n - 1) (getUTCDate d)) = one_day_before d"
proof (cases d)
  case InvalidDate
  then show ?thesis by simp
next
  case (DateMs t)
  have "(Day t - 1) * msPerDay + TimeWithinDay t = t - msPerDay"
    by (simp add: Day_def TimeWithinDay_def algebra_simps)
  then have "MakeDate (Fin (of_int (Day t - 1))) (TimeWithinDay t) = Fin (of_int (t - msPerDay))"
    by (simp del: of_int_diff of_int_add of_int_mult
        add: of_int_add [symmetric] of_int_mult [symmetric])
  then show ?thesis
    unfolding DateMs
    by (simp only: setUTCDate.simps getUTCDate.simps option.map option.case MakeDay.simps
        trunc_rat_of_int MakeDay_int_previous new_Date_int one_day_before.simps)
qed

lemma computeDateAfter_from_string:
  assumes "sortKey_uploadDate sk = Some s" "parseUploadDate s \<noteq> NaN"
  shows "computeDateAfter (Some sk) =
         Some (formatDateAsYyyymmdd (one_day_before (new_Date (js_times (parseUploadDate s) 1000))))"
proof -
  from assms(2) have "s \<noteq> []" by (auto simp: parseUploadDate_def)
  with assms show ?thesis
    by (simp add: computeDateAfter_def uploadDateStringToDate_def isNaN_def Let_def
        setUTCDate_previous del: new_Date.simps)
qed

lemma computeDateAfter_from_instant:
  assumes "sortKey_uploadDate sk = None \<or>
           (\<exists>s. sortKey_uploadDate sk = Some s \<and> s \<noteq> [] \<and> parseUploadDate s = NaN)"
  shows "computeDateAfter (Some sk) =
         map_option (\<lambda>d. formatDateAsYyyymmdd (one_day_before d)) (sortKey_uploadedAt sk)"
  using assms
  by (cases "sortKey_uploadedAt sk")
     (auto simp: computeDateAfter_def uploadDateStringToDate_def isNaN_def Let_def
        setUTCDate_previous)

lemmas date_eval = formatDateAsYyyymmdd_def YearFromTime_def YearFromDay_def Day_def msPerDay_def
  MonthFromTime_def DateFromTime_def DayWithinYear_def InLeapYear_def number_text_def
  int_to_string_def padStart2_def digit_char_def year_from_unfold nat_to_string_unfold
  DayFromYear_def DaysInYear_def leap_year_def month_start_def Let_def

lemma format_20240114: "formatDateAsYyyymmdd (DateMs 1705190400000) = ''20240114''"
  by (simp add: date_eval)

lemma parseUploadDate_20240115: "parseUploadDate ''20240115'' = Fin 1705276800"
proof -
  have h: "length ''20240115'' = 8" "list_all is_digit ''20240115''"
    "1 \<le> decimal (slice ''20240115'' 4 6)" "decimal (slice ''20240115'' 4 6) \<le> 12"
    "1 \<le> decimal (slice ''20240115'' 6 8)" "decimal (slice ''20240115'' 6 8) \<le> 31"
    by (simp_all add: digits_eval)
  have v: "utc_midnight_epoch_seconds (full_year (decimal (slice ''20240115'' 0 4)))
              (decimal (slice ''20240115'' 4 6)) (decimal (slice ''20240115'' 6 8)) = 1705276800"
    by (simp add: digits_eval utc_midnight_closed calendar_eval)
  show ?thesis using parseUploadDate_digits [OF h] unfolding v by simp
qed

lemma round_to_double_1705276800000 [simp]:
  "round_to_double 1705276800000 = Fin 1705276800000"
  using round_to_double_int [of 1705276800000] by simp

lemma new_Date_numeral [simp]:
  "new_Date (Fin 1705276800000) = DateMs 1705276800000"
  using new_Date_int [of 1705276800000] by simp

lemma computeDateAfter_20240115:
  "sortKey_uploadDate sk = Some ''20240115'' \<Longrightarrow> computeDateAfter (Some sk) = Some ''20240114''"
  using computeDateAfter_from_string [of sk "''20240115''"]
  by (simp add: parseUploadDate_20240115 msPerDay_def format_20240114 del: new_Date.simps)

text \<open>
  C2 (as the code has it). The cutoff is the year, two-digit month and two-digit day of
  the instant one calendar day (86400000 ms) before a baseline. The baseline is the date
  parsed from the newest stored upload-date string whenever that string parses, whatever
  the stored uploaded-at instant; it is the newest stored uploaded-at instant only when
  the string is absent, or present, non-empty and unparseable. With neither, there is no
  cutoff. In particular the stored upload date \<^verbatim>\<open>20240115\<close> gives \<^verbatim>\<open>20240114\<close>.
\<close>

theorem computeDateAfter_cutoff:
  "(sortKey_uploadDate sk = Some s \<and> parseUploadDate s \<noteq> NaN \<longrightarrow>
      computeDateAfter (Some sk) =
        Some (formatDateAsYyyymmdd (one_day_before (new_Date (js_times (parseUploadDate s) 1000)))))
   \<and> (sortKey_uploadDate sk = None \<or>
        (\<exists>s. sortKey_uploadDate sk = Some s \<and> s \<noteq> [] \<and> parseUploadDate s = NaN) \<longrightarrow>
      computeDateAfter (Some sk) =
        map_option (\<lambda>d. formatDateAsYyyymmdd (one_day_before d)) (sortKey_uploadedAt sk))
   \<and> (sortKey_uploadDate sk = Some ''20240115'' \<longrightarrow>
      computeDateAfter (Some sk) = Some ''20240114'')"
  using computeDateAfter_from_string [of sk s] computeDateAfter_from_instant [of sk]
    computeDateAfter_20240115 [of sk]
  by blast

theorem computeDateAfter_cutoff_witness:
  "computeDateAfter
     (Some \<lparr>sortKey_uploadDate = Some ''20240115'', sortKey_uploadedAt = None\<rparr>) = Some ''20240114''
   \<and> computeDateAfter
     (Some \<lparr>sortKey_uploadDate = None, sortKey_uploadedAt = Some (DateMs 1709251200123)\<rparr>)
       = Some ''20240229''
   \<and> computeDateAfter
     (Some \<lparr>sortKey_uploadDate = Some ''yesterday'', sortKey_uploadedAt = Some (DateMs 1709251200123)\<rparr>)
       = Some ''20240229''"
proof -
  have f: "formatDateAsYyyymmdd (one_day_before (DateMs 1709251200123)) = ''20240229''"
    by (simp add: date_eval)
  have n: "parseUploadDate ''yesterday'' = NaN"
    by (simp add: parseUploadDate_def)
  show ?thesis
    using
      computeDateAfter_cutoff
        [of "\<lparr>sortKey_uploadDate = Some ''20240115'', sortKey_uploadedAt = None\<rparr>" "''20240115''"]
      computeDateAfter_cutoff
        [of "\<lparr>sortKey_uploadDate = None, sortKey_uploadedAt = Some (DateMs 1709251200123)\<rparr>" "[]"]
      computeDateAfter_cutoff
        [of "\<lparr>sortKey_uploadDate = Some ''yesterday'',
              sortKey_uploadedAt = Some (DateMs 1709251200123)\<rparr>" "''yesterday''"]
      n
    by (simp add: f del: one_day_before.simps new_Date.simps)
qed

text \<open>
  Newest stored upload date \<^verbatim>\<open>20240115\<close>, newest stored uploaded-at instant
  2024-03-01T00:00:00Z. The later of the two is 1 March 2024, and the day before it is
  \<^verbatim>\<open>20240229\<close>; the code answers \<^verbatim>\<open>20240114\<close>.
\<close>

theorem computeDateAfter_counterexample:
  "computeDateAfter
     (Some \<lparr>sortKey_uploadDate = Some ''20240115'',
            sortKey_uploadedAt = Some (DateMs 1709251200000)\<rparr>) = Some ''20240114''
   \<and> cutoff_later_spec
     \<lparr>sortKey_uploadDate = Some ''20240115'',
      sortKey_uploadedAt = Some (DateMs 1709251200000)\<rparr> = Some ''20240229''"
proof -
  have f: "formatDateAsYyyymmdd (one_day_before (DateMs 1709251200000)) = ''20240229''"
    by (simp add: date_eval)
  have "cutoff_later_spec
     \<lparr>sortKey_uploadDate = Some ''20240115'',
      sortKey_uploadedAt = Some (DateMs 1709251200000)\<rparr> = Some ''20240229''"
    by (simp add: cutoff_later_spec_def uploadDateStringToDate_def parseUploadDate_20240115
        isNaN_def f del: new_Date.simps one_day_before.simps)
  then show ?thesis
    by (simp add: computeDateAfter_20240115)
qed

subsection \<open>Upload dates: years below 100 and components that are not digits\<close>

lemma Number_blank: "Number ''    '' = Fin 0"
  by (simp add: Number_def trim_def is_ws_def js_whitespace_def)

lemma Number_hex_1F: "Number ''0x1F'' = Fin 31"
proof -
  have "radix_value 16 ''1F'' = 31" by (simp add: radix_value_def digit_value_def)
  moreover have "round_to_double (of_nat 31) = Fin (of_nat 31)"
    by (rule round_to_double_nat) simp
  ultimately show ?thesis
    by (simp add: Number_def trim_def is_ws_def js_whitespace_def parse_radix_literal_def
        is_radix_digit_def digit_value_def)
qed

text \<open>
  C7. \<^verbatim>\<open>parseUploadDate\<close> departs from the UTC midnight of the calendar date it is given
  on two kinds of 8-character strings.

  A year from 0000 to 0099. \<^verbatim>\<open>Date.UTC\<close> reads a year from 0 to 99 as 1900 plus that year,
  and the code hands it the year unchanged. So \<^verbatim>\<open>00500101\<close>, month 1 and day 1 of the year
  50, gets the epoch seconds of 1 January 1950, the answer \<^verbatim>\<open>19500101\<close> gets as well; the
  date itself lies 60589296000 seconds before the epoch. The code's own formatter
  \<^verbatim>\<open>formatDateAsYyyymmdd\<close> reads the date that \<^verbatim>\<open>uploadDateStringToDate\<close> makes of \<^verbatim>\<open>00500101\<close>
  back as \<^verbatim>\<open>19500101\<close>.

  A component that is not written in digits but that \<^verbatim>\<open>Number\<close> accepts. The guard tests
  \<^verbatim>\<open>Number.isNaN\<close> only: the blank year of \<^verbatim>\<open>"    0101"\<close> counts as 0 and the year \<^verbatim>\<open>0x1F\<close> as
  31, and both strings get a date (1 January 1900 and 1 January 1931) instead of NaN.
\<close>

theorem parseUploadDate_two_digit_year:
  "parseUploadDate ''00500101'' = Fin (- 631152000)
   \<and> utc_midnight_epoch_seconds 50 1 1 = - 60589296000
   \<and> parseUploadDate ''19500101'' = Fin (- 631152000)
   \<and> map_option formatDateAsYyyymmdd (uploadDateStringToDate (Some ''00500101'')) = Some ''19500101''
   \<and> parseUploadDate ''    0101'' = Fin (- 2208988800)
   \<and> parseUploadDate ''0x1F0101'' = Fin (- 1230768000)"
proof -
  have n01: "Number ''01'' = Fin (of_int 1)"
    using Number_digits [of "''01''"] by (simp add: digits_eval)
  have a: "parseUploadDate ''00500101'' = Fin (- 631152000)"
  proof -
    have "Number ''0050'' = Fin (of_int 50)"
      using Number_digits [of "''0050''"] by (simp add: digits_eval)
    then have "parseUploadDate ''00500101'' = Fin (of_int (utc_midnight_epoch_seconds (full_year 50) 1 1))"
      using n01 by (intro parseUploadDate_numbers) (simp_all add: slice_def)
    then show ?thesis by (simp add: full_year_def utc_midnight_closed calendar_eval)
  qed
  have b: "utc_midnight_epoch_seconds 50 1 1 = - 60589296000"
    by (simp add: utc_midnight_closed calendar_eval)
  have c: "parseUploadDate ''19500101'' = Fin (- 631152000)"
  proof -
    have "Number ''1950'' = Fin (of_int 1950)"
      using Number_digits [of "''1950''"] by (simp add: digits_eval)
    then have "parseUploadDate ''19500101'' = Fin (of_int (utc_midnight_epoch_seconds (full_year 1950) 1 1))"
      using n01 by (intro parseUploadDate_numbers) (simp_all add: slice_def)
    then show ?thesis by (simp add: full_year_def utc_midnight_closed calendar_eval)
  qed
  have r: "round_to_double (- 631152000000) = Fin (- 631152000000)"
    using round_to_double_int [of "- 631152000000"] by simp
  have nd: "new_Date (Fin (- 631152000000)) = DateMs (- 631152000000)"
    using new_Date_int [of "- 631152000000"] by simp
  have f: "formatDateAsYyyymmdd (DateMs (- 631152000000)) = ''19500101''"
    by (simp add: date_eval)
  have d: "map_option formatDateAsYyyymmdd (uploadDateStringToDate (Some ''00500101'')) = Some ''19500101''"
    by (simp add: uploadDateStringToDate_def a isNaN_def r nd f del: new_Date.simps)
  have e: "parseUploadDate ''    0101'' = Fin (- 2208988800)"
  proof -
    have "Number ''    '' = Fin (of_int 0)" using Number_blank by simp
    then have "parseUploadDate ''    0101'' = Fin (of_int (utc_midnight_epoch_seconds (full_year 0) 1 1))"
      using n01 by (intro parseUploadDate_numbers) (simp_all add: slice_def)
    then show ?thesis by (simp add: full_year_def utc_midnight_closed calendar_eval)
  qed
  have g: "parseUploadDate ''0x1F0101'' = Fin (- 1230768000)"
  proof -
    have "Number ''0x1F'' = Fin (of_int 31)" using Number_hex_1F by simp
    then have "parseUploadDate ''0x1F0101'' = Fin (of_int (utc_midnight_epoch_seconds (full_year 31) 1 1))"
      using n01 by (intro parseUploadDate_numbers) (simp_all add: slice_def)
    then show ?thesis by (simp add: full_year_def utc_midnight_closed calendar_eval)
  qed
  from a b c d e g show ?thesis by simp
qed

subsection \<open>Channel URLs\<close>

text \<open>
  The platform's \<^verbatim>\<open>URL\<close> class is not part of the repository. A parsed URL is modelled by
  the four pieces the code touches: everything before the path (scheme and authority),
  the path, the query with its \<^verbatim>\<open>?\<close>, the fragment with its \<^verbatim>\<open>#\<close>. The parser and the
  \<^verbatim>\<open>pathname\<close> setter are parameters of every function that uses them; \<open>None\<close> from the
  parser is the \<^verbatim>\<open>TypeError\<close> of \<^verbatim>\<open>new URL\<close>.
\<close>

record URL =
  url_prefix :: string
  pathname :: string
  search :: string
  hash :: string

record url_platform =
  URL_parse :: "string \<Rightarrow> URL option"
  URL_set_pathname :: "URL \<Rightarrow> string \<Rightarrow> URL"

definition URL_toString :: "URL \<Rightarrow> string" where
  "URL_toString u = url_prefix u @ pathname u @ search u @ hash u"

definition channel_tabs :: "string list" where
  "channel_tabs = [''videos'', ''shorts'', ''streams'', ''featured'', ''community'']"

text \<open>\<^verbatim>\<open>.replace(/(\/(?:videos|shorts|streams|featured|community))\/?$/i, "/")\<close>: the match
  reaches the end of the string, so it is a suffix \<^verbatim>\<open>/tab\<close> or \<^verbatim>\<open>/tab/\<close>.\<close>

definition strip_tab_suffix :: "string \<Rightarrow> string" where
  "strip_tab_suffix p =
     (let q = (if endsWith p ''/'' then butlast p else p) in
      case filter (\<lambda>w. endsWith (toLowerCase q) (CHR ''/'' # w)) channel_tabs of
        [] \<Rightarrow> p
      | w # ws \<Rightarrow> take (length q - length w - 1) q @ ''/'')"

text \<open>\<^verbatim>\<open>.replace(/\/{2,}/g, "/")\<close>\<close>

fun collapse_slashes :: "string \<Rightarrow> string" where
  "collapse_slashes (a # b # cs) =
     (if a = CHR ''/'' \<and> b = CHR ''/'' then collapse_slashes (b # cs)
      else a # collapse_slashes (b # cs))"
| "collapse_slashes cs = cs"

text \<open>\<^verbatim>\<open>export function normalizeChannelUrl(rawUrl: string)\<close>\<close>

definition normalizeChannelUrl :: "url_platform \<Rightarrow> string \<Rightarrow> string" where
  "normalizeChannelUrl P rawUrl =
     (let trimmed = trim rawUrl in
      if trimmed = [] then rawUrl
      else case URL_parse P trimmed of
             None \<Rightarrow> trimmed
           | Some parsed \<Rightarrow>
               (let parsed = parsed\<lparr>search := []\<rparr>;
                    parsed = parsed\<lparr>hash := []\<rparr>;
                    parsed = URL_set_pathname P parsed (strip_tab_suffix (pathname parsed));
                    parsed = URL_set_pathname P parsed (collapse_slashes (pathname parsed));
                    parsed = (if \<not> endsWith (pathname parsed) ''/''
                              then URL_set_pathname P parsed (pathname parsed @ ''/'')
                              else parsed);
                    serialized = URL_toString parsed
                in if endsWith serialized ''/'' then serialized else serialized @ ''/''))"

text \<open>\<^verbatim>\<open>.match(/@[^/]+/)\<close>: the first \<^verbatim>\<open>@\<close> that a character other than \<^verbatim>\<open>/\<close> follows, with
  all such characters after it.\<close>

fun match_handle :: "string \<Rightarrow> string option" where
  "match_handle [] = None"
| "match_handle (c # cs) =
     (if c = CHR ''@'' \<and> takeWhile (\<lambda>x. x \<noteq> CHR ''/'') cs \<noteq> []
      then Some (c # takeWhile (\<lambda>x. x \<noteq> CHR ''/'') cs)
      else match_handle cs)"

text \<open>\<^verbatim>\<open>export function extractHandleFromUrl(url: string)\<close>\<close>

definition extractHandleFromUrl :: "url_platform \<Rightarrow> string \<Rightarrow> string option" where
  "extractHandleFromUrl P url =
     (case URL_parse P url of
        Some parsed \<Rightarrow> match_handle (pathname parsed)
      | None \<Rightarrow> match_handle url)"

text \<open>
  A platform to run examples on: absolute \<^verbatim>\<open>http\<close> and \<^verbatim>\<open>https\<close> URLs with a non-empty
  host, whose path, query and fragment the parser copies unchanged (no dot segments, no
  character that is percent-encoded, no backslash). Every other string is refused.
\<close>

definition not_in :: "string \<Rightarrow> char \<Rightarrow> bool" where
  "not_in stops c = (c \<notin> set stops)"

definition simple_URL_parse :: "string \<Rightarrow> URL option" where
  "simple_URL_parse s =
     (let scheme = (if startsWith (toLowerCase s) ''https://'' then ''https://''
                    else if startsWith (toLowerCase s) ''http://'' then ''http://'' else []);
          rest = drop (length scheme) s;
          host = takeWhile (not_in ''/?#'') rest;
          after = dropWhile (not_in ''/?#'') rest;
          path = takeWhile (not_in ''?#'') after;
          after = dropWhile (not_in ''?#'') after;
          query = takeWhile (not_in ''#'') after;
          fragment = dropWhile (not_in ''#'') after
      in if scheme = [] \<or> host = [] then None
         else Some \<lparr>url_prefix = scheme @ toLowerCase host,
                    pathname = (if path = [] then ''/'' else path),
                    search = (if query = ''?'' then [] else query),
                    hash = (if fragment = ''#'' then [] else fragment)\<rparr>)"

definition simple_set_pathname :: "URL \<Rightarrow> string \<Rightarrow> URL" where
  "simple_set_pathname u p =
     u\<lparr>pathname := (if startsWith p ''/'' then p else CHR ''/'' # p)\<rparr>"

definition simple_platform :: url_platform where
  "simple_platform = \<lparr>URL_parse = simple_URL_parse, URL_set_pathname = simple_set_pathname\<rparr>"

text \<open>
  C8. The input \<^verbatim>\<open>https://www.youtube.com/c/shorts/videos\<close> normalizes to
  \<^verbatim>\<open>https://www.youtube.com/c/shorts/\<close>, and normalizing that again strips the next
  segment and gives \<^verbatim>\<open>https://www.youtube.com/c/\<close>: one pass removes one trailing tab
  segment only.
\<close>

theorem normalizeChannelUrl_twice:
  "normalizeChannelUrl simple_platform ''https://www.youtube.com/c/shorts/videos''
     = ''https://www.youtube.com/c/shorts/''
   \<and> normalizeChannelUrl simple_platform
       (normalizeChannelUrl simple_platform ''https://www.youtube.com/c/shorts/videos'')
     = ''https://www.youtube.com/c/''"
  by code_simp

section \<open>Strategy planner\<close>

text \<open>
  \<^verbatim>\<open>type PlaylistCoverageInfo = { maxPlaylistIndex?: number; maxPlaylistCount?: number }\<close>
  and the parts of \<^verbatim>\<open>ChannelBootstrapState\<close> the planner reads. An absent optional field
  is \<open>None\<close>.
\<close>

record PlaylistCoverageInfo =
  maxPlaylistIndex :: "jsnum option"
  maxPlaylistCount :: "jsnum option"

record DownloadArchiveEntry =
  entry_id :: string
  extractorKeys :: "string list"

record ChannelBootstrapState =
  knownVideoIds :: "string fset"
  coverage :: "PlaylistCoverageInfo option"
  archiveEntries :: "DownloadArchiveEntry list"

definition set_size :: "string fset \<Rightarrow> jsnum" where
  "set_size s = num (int (fcard s))"

text \<open>\<^verbatim>\<open>function needsPlaylistBackfill(state)\<close>\<close>

definition needsPlaylistBackfill :: "ChannelBootstrapState \<Rightarrow> bool" where
  "needsPlaylistBackfill state =
     (if set_size (knownVideoIds state) = num 0 then False
      else case coverage state of
             None \<Rightarrow> False
           | Some cov \<Rightarrow>
               (case maxPlaylistCount cov of
                  None \<Rightarrow> False
                | Some cnt \<Rightarrow>
                    if js_le cnt (num 0) then False
                    else js_lt (set_size (knownVideoIds state)) cnt))"

text \<open>\<^verbatim>\<open>function shouldUseAutoDateAfter(state)\<close>\<close>

definition shouldUseAutoDateAfter :: "ChannelBootstrapState \<Rightarrow> bool" where
  "shouldUseAutoDateAfter state =
     (if set_size (knownVideoIds state) = num 0 then True
      else case coverage state of
             None \<Rightarrow> False
           | Some cov \<Rightarrow>
               (case (maxPlaylistCount cov, maxPlaylistIndex cov) of
                  (Some cnt, Some idx) \<Rightarrow> js_gt cnt (num 0) \<and> js_ge idx cnt
                | _ \<Rightarrow> False))"

subsection \<open>Dedup archive and early stop\<close>

text \<open>
  The file system as \<^verbatim>\<open>createDownloadArchiveFile\<close> sees it: what \<^verbatim>\<open>mkdtemp\<close> will answer,
  whether \<^verbatim>\<open>writeFile\<close> will fail, and the files written so far.
\<close>

record fs_state =
  mkdtemp_result :: "thrown + string"
  writeFile_error :: "thrown option"
  files :: "(string \<times> string) list"

record DownloadArchiveHandle =
  path :: string
  tempDir :: string

definition DEFAULT_ARCHIVE_EXTRACTOR_KEYS :: "string list" where
  "DEFAULT_ARCHIVE_EXTRACTOR_KEYS = [''youtubetab'', ''youtube'']"

text \<open>The body of the inner loop \<^verbatim>\<open>for (const key of extractorKeys)\<close>; \<open>seen\<close> holds
  exactly the lines pushed so far.\<close>

definition archive_key_step :: "string \<Rightarrow> string list \<Rightarrow> string \<Rightarrow> string list" where
  "archive_key_step eid lines key =
     (let normalized = toLowerCase key in
      if normalized = [] then lines
      else let line = normalized @ '' '' @ eid @ [CHR 0x0A] in
           if line \<in> set lines then lines else lines @ [line])"

definition archive_entry_step :: "string list \<Rightarrow> DownloadArchiveEntry \<Rightarrow> string list" where
  "archive_entry_step lines entry =
     (let keys = (if length (extractorKeys entry) > 0 then extractorKeys entry
                  else DEFAULT_ARCHIVE_EXTRACTOR_KEYS)
      in foldl (archive_key_step (entry_id entry)) lines keys)"

definition archive_lines :: "DownloadArchiveEntry list \<Rightarrow> string list" where
  "archive_lines entries = foldl archive_entry_step [] entries"

text \<open>\<^verbatim>\<open>async function createDownloadArchiveFile(entries)\<close>: \<open>Inl\<close> is a rejected
  promise, \<open>Inr None\<close> is \<^verbatim>\<open>undefined\<close>.\<close>

definition createDownloadArchiveFile ::
  "fs_state \<Rightarrow> DownloadArchiveEntry list \<Rightarrow> (thrown + DownloadArchiveHandle option) \<times> fs_state" where
  "createDownloadArchiveFile fs entries =
     (if length entries = 0 then (Inr None, fs)
      else case mkdtemp_result fs of
             Inl e \<Rightarrow> (Inl e, fs)
           | Inr dir \<Rightarrow>
               (let archivePath = dir @ ''/download-archive.txt'';
                    lines = archive_lines entries
                in if length lines = 0 then (Inr None, fs)
                   else case writeFile_error fs of
                          Some e \<Rightarrow> (Inl e, fs)
                        | None \<Rightarrow>
                            (Inr (Some \<lparr>path = archivePath, tempDir = dir\<rparr>),
                             fs\<lparr>files := (archivePath, concat lines) # files fs\<rparr>)))"

text \<open>\<^verbatim>\<open>const breakOnExistingEnabled = Boolean(downloadArchiveHandle &&
  bootstrapState.knownVideoIds.size > 0 && !backfillModeEnabled)\<close> in \<^verbatim>\<open>main\<close>.\<close>

definition breakOnExistingEnabled ::
  "DownloadArchiveHandle option \<Rightarrow> ChannelBootstrapState \<Rightarrow> bool" where
  "breakOnExistingEnabled downloadArchiveHandle bootstrapState =
     (let backfillModeEnabled = needsPlaylistBackfill bootstrapState in
      case downloadArchiveHandle of
        None \<Rightarrow> False
      | Some h \<Rightarrow> js_gt (set_size (knownVideoIds bootstrapState)) (num 0) \<and> \<not> backfillModeEnabled)"

text \<open>
  The decision the specification describes: known-item count nonzero and the stored
  maximum playlist index strictly below the stored maximum playlist count.
\<close>

definition backfill_by_index_spec :: "ChannelBootstrapState \<Rightarrow> bool" where
  "backfill_by_index_spec state =
     (fcard (knownVideoIds state) \<noteq> 0 \<and>
      (case coverage state of
         None \<Rightarrow> False
       | Some cov \<Rightarrow>
           (case (maxPlaylistIndex cov, maxPlaylistCount cov) of
              (Some idx, Some cnt) \<Rightarrow> js_lt idx cnt
            | _ \<Rightarrow> False)))"

section \<open>Strategy planner: results\<close>

lemma set_size_zero_iff: "set_size s = num 0 \<longleftrightarrow> fcard s = 0"
  by (simp add: set_size_def num_def)

text \<open>
  C1 (as the code has it). The backfill decision is true exactly when the known-item
  count is nonzero, a maximum playlist count is stored and positive, and the known-item
  count is strictly below that maximum playlist count. The stored maximum playlist
  index plays no part.
\<close>

theorem needsPlaylistBackfill_iff:
  "needsPlaylistBackfill state \<longleftrightarrow>
     fcard (knownVideoIds state) \<noteq> 0 \<and>
     (\<exists>cov cnt. coverage state = Some cov \<and> maxPlaylistCount cov = Some cnt \<and>
        js_lt (num 0) cnt \<and> js_lt (num (int (fcard (knownVideoIds state)))) cnt)"
proof (cases "coverage state")
  case None
  then show ?thesis
    by (simp add: needsPlaylistBackfill_def)
next
  case (Some cov)
  show ?thesis
  proof (cases "maxPlaylistCount cov")
    case None
    with Some show ?thesis
      by (simp add: needsPlaylistBackfill_def)
  next
    case cnt: (Some cnt)
    have pos: "js_lt (num (int (fcard (knownVideoIds state)))) cnt \<Longrightarrow> js_lt (num 0) cnt"
      by (cases cnt) (auto simp: num_def)
    have le: "js_lt (num (int (fcard (knownVideoIds state)))) cnt \<Longrightarrow> \<not> js_le cnt (num 0)"
      by (cases cnt) (auto simp: num_def)
    from Some cnt show ?thesis
      using pos le
      by (auto simp: needsPlaylistBackfill_def set_size_def num_def)
  qed
qed

theorem needsPlaylistBackfill_iff_witness:
  "needsPlaylistBackfill
     \<lparr>knownVideoIds = {|''a''|},
      coverage = Some \<lparr>maxPlaylistIndex = Some (num 5), maxPlaylistCount = Some (num 5)\<rparr>,
      archiveEntries = []\<rparr>"
  using needsPlaylistBackfill_iff
    [of "\<lparr>knownVideoIds = {|''a''|},
          coverage = Some \<lparr>maxPlaylistIndex = Some (num 5), maxPlaylistCount = Some (num 5)\<rparr>,
          archiveEntries = []\<rparr>"]
  by (simp add: num_def fcard_finsert_if fcard_fempty)

text \<open>
  One known id, stored maximum playlist index 5 and maximum playlist count 5: index and
  count are equal, so the decision described by the specification is negative, yet the
  code answers true because 1 < 5.
\<close>

theorem needsPlaylistBackfill_counterexample:
  "needsPlaylistBackfill
     \<lparr>knownVideoIds = {|''a''|},
      coverage = Some \<lparr>maxPlaylistIndex = Some (num 5), maxPlaylistCount = Some (num 5)\<rparr>,
      archiveEntries = []\<rparr>
   \<and> \<not> backfill_by_index_spec
     \<lparr>knownVideoIds = {|''a''|},
      coverage = Some \<lparr>maxPlaylistIndex = Some (num 5), maxPlaylistCount = Some (num 5)\<rparr>,
      archiveEntries = []\<rparr>"
  by (simp add: needsPlaylistBackfill_def backfill_by_index_spec_def set_size_def num_def
      fcard_finsert_if fcard_fempty)

lemma set_size_pos_iff: "js_gt (set_size s) (num 0) \<longleftrightarrow> fcard s \<noteq> 0"
  unfolding js_gt_def set_size_def num_def by (cases "fcard s") simp_all

text \<open>
  C9. Whenever the archive step of \<^verbatim>\<open>main\<close> returns (a handle or none), the early-stop
  signal is enabled exactly when a handle was returned, which happens only after the
  non-empty archive was written to its file, and at least one known id exists, and
  backfill mode is not active.
\<close>

theorem breakOnExistingEnabled_iff:
  assumes "createDownloadArchiveFile fs (archiveEntries st) = (Inr h, fs')"
  shows "breakOnExistingEnabled h st \<longleftrightarrow>
           (\<exists>hd. h = Some hd \<and> archive_lines (archiveEntries st) \<noteq> [] \<and>
                 (path hd, concat (archive_lines (archiveEntries st))) \<in> set (files fs'))
           \<and> fcard (knownVideoIds st) \<noteq> 0 \<and> \<not> needsPlaylistBackfill st"
  using assms
  by (auto simp: createDownloadArchiveFile_def breakOnExistingEnabled_def Let_def set_size_pos_iff
      simp del: fcard_0_eq split: if_splits sum.splits option.splits)

theorem breakOnExistingEnabled_iff_witness:
  "breakOnExistingEnabled
     (Some \<lparr>path = ''/tmp/carey-yt-archive-1/download-archive.txt'',
            tempDir = ''/tmp/carey-yt-archive-1''\<rparr>)
     \<lparr>knownVideoIds = {|''a''|}, coverage = None,
      archiveEntries = [\<lparr>entry_id = ''a'', extractorKeys = [''Youtube'']\<rparr>]\<rparr>"
  using breakOnExistingEnabled_iff
    [of "\<lparr>mkdtemp_result = Inr ''/tmp/carey-yt-archive-1'', writeFile_error = None, files = []\<rparr>"
        "\<lparr>knownVideoIds = {|''a''|}, coverage = None,
          archiveEntries = [\<lparr>entry_id = ''a'', extractorKeys = [''Youtube'']\<rparr>]\<rparr>"
        "Some \<lparr>path = ''/tmp/carey-yt-archive-1/download-archive.txt'',
               tempDir = ''/tmp/carey-yt-archive-1''\<rparr>"
        "\<lparr>mkdtemp_result = Inr ''/tmp/carey-yt-archive-1'', writeFile_error = None,
          files = [(''/tmp/carey-yt-archive-1/download-archive.txt'', ''youtube a'' @ [CHR 0x0A])]\<rparr>"]
  by (simp add: createDownloadArchiveFile_def archive_lines_def archive_entry_step_def
      archive_key_step_def toLowerCase_def lower_char_def upper_letters_def lower_letters_def
      needsPlaylistBackfill_def fcard_finsert_if fcard_fempty Let_def)

section \<open>Persistence layer\<close>

subsection \<open>Payloads, rows and the store\<close>

datatype json =
    JNull | JBool bool | JNum jsnum | JStr string | JArr "json list" | JObj "(string \<times> json) list"

type_synonym RawVideo = "(string \<times> json) list"

definition field :: "RawVideo \<Rightarrow> string \<Rightarrow> json option" where
  "field video name = map_of video name"

record ChannelInsert =
  canonicalUrl :: string
  externalId :: "string option"
  handle :: "string option"
  displayName :: "string option"
  channel_updatedAt :: Date

record ChannelRow = ChannelInsert +
  channel_id :: int

record VideoInsert =
  video_id :: string
  channelId :: int
  videoUrl :: string
  title :: string
  description :: "string option"
  durationSeconds :: "jsnum option"
  publishedTimestamp :: "jsnum option"
  uploadDate :: "string option"
  uploadedAt :: "Date option"
  scrapedAt :: Date
  isLive :: bool
  rawData :: RawVideo
  video_updatedAt :: Date

record world =
  channels :: "ChannelRow list"
  videos :: "VideoInsert list"
  next_channel_id :: int
  faults :: "thrown option list"
  slept :: "nat list"

definition db_attempt :: "(world \<Rightarrow> 'a \<times> world) \<Rightarrow> world \<Rightarrow> (thrown + 'a) \<times> world" where
  "db_attempt f w =
     (case faults w of
        [] \<Rightarrow> (case f w of (r, w') \<Rightarrow> (Inr r, w'))
      | None # rest \<Rightarrow> (case f (w\<lparr>faults := rest\<rparr>) of (r, w') \<Rightarrow> (Inr r, w'))
      | Some e # rest \<Rightarrow> (Inl e, w\<lparr>faults := rest\<rparr>))"

definition sleep :: "nat \<Rightarrow> world \<Rightarrow> world" where
  "sleep ms w = w\<lparr>slept := slept w @ [ms]\<rparr>"

subsection \<open>Transient-error retry\<close>

record retry_config =
  DB_MAX_RETRIES :: nat
  DB_RETRY_BASE_MS :: nat
  DB_RETRY_MAX_MS :: nat

definition TRANSIENT_DB_ERROR_CODES :: "string list" where
  "TRANSIENT_DB_ERROR_CODES = [''ECONNRESET'', ''ETIMEDOUT'', ''ECONNREFUSED'', ''EPIPE'', ''57P01'']"

fun extractErrorCode :: "thrown \<Rightarrow> string option" where
  "extractErrorCode (Prim t) = None"
| "extractErrorCode (Obj ie code msg maybeCause) =
     (case (case code of
              Some c \<Rightarrow> if trim c \<noteq> [] then Some (toUpperCase (trim c)) else None
            | None \<Rightarrow> None) of
        Some r \<Rightarrow> Some r
      | None \<Rightarrow> (case maybeCause of Some c \<Rightarrow> extractErrorCode c | None \<Rightarrow> None))"

fun isTransientDatabaseError :: "thrown \<Rightarrow> bool" where
  "isTransientDatabaseError (Prim t) = False"
| "isTransientDatabaseError (Obj ie code msg maybeCause) =
     (if (case extractErrorCode (Obj ie code msg maybeCause) of
            Some c \<Rightarrow> c \<in> set TRANSIENT_DB_ERROR_CODES
          | None \<Rightarrow> False) then True
      else if (case maybeCause of Some c \<Rightarrow> isTransientDatabaseError c | None \<Rightarrow> False) then True
      else if ie then
        (let normalized = toLowerCase msg in
         str_includes normalized ''connection reset'' \<or>
         str_includes normalized ''server closed the connection'' \<or>
         str_includes normalized ''terminating connection'')
      else False)"

definition retry_delay :: "nat \<Rightarrow> nat \<Rightarrow> nat \<Rightarrow> nat" where
  "retry_delay baseDelay maxDelay attempt = min (baseDelay * 2 ^ (attempt - 1)) maxDelay"

function retry_loop ::
  "nat \<Rightarrow> nat \<Rightarrow> nat \<Rightarrow> (world \<Rightarrow> (thrown + 'a) \<times> world) \<Rightarrow> nat \<Rightarrow> world \<Rightarrow> (thrown + 'a) \<times> world" where
  "retry_loop maxAttempts baseDelay maxDelay operation attempt w =
     (if attempt \<le> maxAttempts then
        (case operation w of
           (Inr v, w') \<Rightarrow> (Inr v, w')
         | (Inl error, w') \<Rightarrow>
             (let isLastAttempt = (attempt = maxAttempts) in
              if isLastAttempt \<or> \<not> isTransientDatabaseError error then (Inl error, w')
              else retry_loop maxAttempts baseDelay maxDelay operation (attempt + 1)
                     (sleep (retry_delay baseDelay maxDelay attempt) w')))
      else (Inl (new_Error ''Database operation failed after retries''), w))"
  by pat_completeness auto
termination
  by (relation "measure (\<lambda>(maxAttempts, baseDelay, maxDelay, operation, attempt, w). Suc maxAttempts - attempt)") auto

definition maxAttempts :: "retry_config \<Rightarrow> nat" where
  "maxAttempts cfg = max 1 (DB_MAX_RETRIES cfg)"

definition baseDelay :: "retry_config \<Rightarrow> nat" where
  "baseDelay cfg = max 50 (DB_RETRY_BASE_MS cfg)"

definition maxDelay :: "retry_config \<Rightarrow> nat" where
  "maxDelay cfg = max (baseDelay cfg) (DB_RETRY_MAX_MS cfg)"

definition withDatabaseRetry ::
  "retry_config \<Rightarrow> (world \<Rightarrow> (thrown + 'a) \<times> world) \<Rightarrow> world \<Rightarrow> (thrown + 'a) \<times> world" where
  "withDatabaseRetry cfg operation w =
     retry_loop (maxAttempts cfg) (baseDelay cfg) (maxDelay cfg) operation 1 w"

lemmas retry_loop_unfold = retry_loop.simps
declare retry_loop.simps [simp del]

lemma world_slept_faults_commute [simp]:
  "w\<lparr>slept := X, faults := Y\<rparr> = w\<lparr>faults := Y, slept := X\<rparr>"
  by (rule world.equality) simp_all

lemma upt_from_Cons: "[a..<a + Suc n] = a # [Suc a..<Suc a + n]"
  using upt_conv_Cons [of a "a + Suc n"] by (simp del: upt_Suc)

lemma retry_loop_transient_prefix:
  assumes "\<forall>e\<in>set es. isTransientDatabaseError e"
    and "a + length es \<le> M"
    and "faults w = map Some es @ rest"
  shows "retry_loop M b d (db_attempt f) a w =
         retry_loop M b d (db_attempt f) (a + length es)
           (w\<lparr>faults := rest, slept := slept w @ map (retry_delay b d) [a..<a + length es]\<rparr>)"
  using assms
proof (induction es arbitrary: a w)
  case Nil
  from Nil.prems(3) have "w\<lparr>faults := rest\<rparr> = w" by auto
  then show ?case by simp
next
  case (Cons e es)
  let ?w1 = "sleep (retry_delay b d a) (w\<lparr>faults := map Some es @ rest\<rparr>)"
  have step: "retry_loop M b d (db_attempt f) a w = retry_loop M b d (db_attempt f) (Suc a) ?w1"
    using Cons.prems by (subst retry_loop_unfold) (simp add: db_attempt_def)
  have "retry_loop M b d (db_attempt f) (Suc a) ?w1 =
        retry_loop M b d (db_attempt f) (Suc a + length es)
          (?w1\<lparr>faults := rest, slept := slept ?w1 @ map (retry_delay b d) [Suc a..<Suc a + length es]\<rparr>)"
    using Cons.prems by (intro Cons.IH) (simp_all add: sleep_def)
  also have "\<dots> = retry_loop M b d (db_attempt f) (a + length (e # es))
          (w\<lparr>faults := rest, slept := slept w @ map (retry_delay b d) [a..<a + length (e # es)]\<rparr>)"
  proof -
    have idx: "[a..<a + length (e # es)] = a # [Suc a..<Suc a + length es]"
      using upt_from_Cons [of a "length es"] by simp
    show ?thesis
      unfolding idx by (simp add: sleep_def del: upt_Suc)
  qed
  finally show ?case using step by simp
qed

text \<open>
  C5. For every store operation \<open>f\<close> and every schedule of store errors: while the
  attempts made so far failed with transient errors \<open>es\<close> and attempts remain, the wrapper
  has slept \<open>min (baseDelay * 2 ^ (attempt - 1)) maxDelay\<close> milliseconds after each of
  them and tries again. If the next attempt succeeds, its value is returned. If it fails
  with an error that is not transient, or it was the last attempt allowed, that error is
  re-raised at once, with no further sleep and no further attempt.
\<close>

theorem withDatabaseRetry_behaviour:
  fixes f :: "world \<Rightarrow> 'a \<times> world"
  assumes transient: "\<forall>e\<in>set es. isTransientDatabaseError e"
    and fewer: "length es < maxAttempts cfg"
    and schedule: "faults w = map Some es @ rest"
  shows "(rest = [] \<or> rest = None # rest' \<longrightarrow>
            withDatabaseRetry cfg (db_attempt f) w =
              (case f (w\<lparr>faults := tl rest, slept := slept w @
                         map (\<lambda>attempt. min (baseDelay cfg * 2 ^ (attempt - 1)) (maxDelay cfg))
                           [1..<Suc (length es)]\<rparr>) of (r, w') \<Rightarrow> (Inr r, w')))
       \<and> (rest = Some e # rest' \<and>
            (\<not> isTransientDatabaseError e \<or> Suc (length es) = maxAttempts cfg) \<longrightarrow>
            withDatabaseRetry cfg (db_attempt f) w =
              (Inl e, w\<lparr>faults := rest', slept := slept w @
                         map (\<lambda>attempt. min (baseDelay cfg * 2 ^ (attempt - 1)) (maxDelay cfg))
                           [1..<Suc (length es)]\<rparr>))"
proof -
  let ?w1 = "w\<lparr>faults := rest, slept := slept w @
               map (retry_delay (baseDelay cfg) (maxDelay cfg)) [1..<1 + length es]\<rparr>"
  have start: "withDatabaseRetry cfg (db_attempt f) w =
        retry_loop (maxAttempts cfg) (baseDelay cfg) (maxDelay cfg) (db_attempt f) (1 + length es) ?w1"
    unfolding withDatabaseRetry_def
    using transient fewer schedule by (intro retry_loop_transient_prefix) simp_all
  have delays: "retry_delay (baseDelay cfg) (maxDelay cfg) =
                (\<lambda>attempt. min (baseDelay cfg * 2 ^ (attempt - 1)) (maxDelay cfg))"
    by (rule ext) (simp add: retry_delay_def)
  let ?W = "w\<lparr>faults := tl rest, slept := slept w @
               map (\<lambda>attempt. min (baseDelay cfg * 2 ^ (attempt - 1)) (maxDelay cfg))
                 [1..<Suc (length es)]\<rparr>"
  have w1: "?w1 = ?W\<lparr>faults := rest\<rparr>"
    by (simp add: delays)
  have att_ok: "db_attempt f ?w1 = (case f ?W of (r, w') \<Rightarrow> (Inr r, w'))"
    if "rest = [] \<or> rest = None # rest'"
    using that unfolding w1 by (auto simp: db_attempt_def)
  have att_err: "db_attempt f ?w1 = (Inl e, ?W)" if "rest = Some e # rest'"
    using that unfolding w1 by (simp add: db_attempt_def)
  from fewer have le: "1 + length es \<le> maxAttempts cfg" by simp
  have ok: "withDatabaseRetry cfg (db_attempt f) w = (case f ?W of (r, w') \<Rightarrow> (Inr r, w'))"
    if "rest = [] \<or> rest = None # rest'"
  proof -
    obtain r w' where fw: "f ?W = (r, w')" by (cases "f ?W")
    show ?thesis
      unfolding start
      by (subst retry_loop_unfold)
         (simp only: le if_True att_ok [OF that] fw prod.case sum.case)
  qed
  have err: "withDatabaseRetry cfg (db_attempt f) w = (Inl e, ?W)"
    if "rest = Some e # rest'" and "\<not> isTransientDatabaseError e \<or> Suc (length es) = maxAttempts cfg"
  proof -
    from that(2) have stop: "1 + length es = maxAttempts cfg \<or> \<not> isTransientDatabaseError e"
      by auto
    show ?thesis
      unfolding start
      by (subst retry_loop_unfold)
         (simp only: le if_True att_err [OF that(1)] prod.case sum.case Let_def stop)
  qed
  from ok err show ?thesis by auto
qed

theorem withDatabaseRetry_behaviour_witness:
  "withDatabaseRetry \<lparr>DB_MAX_RETRIES = 5, DB_RETRY_BASE_MS = 500, DB_RETRY_MAX_MS = 5000\<rparr>
     (db_attempt (\<lambda>w. (length (videos w), w)))
     \<lparr>channels = [], videos = [], next_channel_id = 1,
      faults = [Some (Obj True None ''wrapped'' (Some (Obj False (Some '' econnreset '') [] None))),
                Some (Obj True None ''Terminating connection due to administrator command'' None),
                None, Some (Prim ''late'')],
      slept = []\<rparr>
   = (Inr 0, \<lparr>channels = [], videos = [], next_channel_id = 1, faults = [Some (Prim ''late'')],
              slept = [500, 1000]\<rparr>)
   \<and>
   withDatabaseRetry \<lparr>DB_MAX_RETRIES = 5, DB_RETRY_BASE_MS = 500, DB_RETRY_MAX_MS = 5000\<rparr>
     (db_attempt (\<lambda>w. (length (videos w), w)))
     \<lparr>channels = [], videos = [], next_channel_id = 1,
      faults = [Some (Obj True (Some ''EPIPE'') ''write'' None),
                Some (Obj True (Some ''23505'') ''duplicate key'' None), None],
      slept = []\<rparr>
   = (Inl (Obj True (Some ''23505'') ''duplicate key'' None),
      \<lparr>channels = [], videos = [], next_channel_id = 1, faults = [None], slept = [500]\<rparr>)
   \<and>
   withDatabaseRetry \<lparr>DB_MAX_RETRIES = 3, DB_RETRY_BASE_MS = 10, DB_RETRY_MAX_MS = 80\<rparr>
     (db_attempt (\<lambda>w. (length (videos w), w)))
     \<lparr>channels = [], videos = [], next_channel_id = 1,
      faults = [Some (Obj True (Some ''57P01'') ''a'' None),
                Some (Obj True (Some ''57P01'') ''b'' None),
                Some (Obj True (Some ''57P01'') ''c'' None), None],
      slept = []\<rparr>
   = (Inl (Obj True (Some ''57P01'') ''c'' None),
      \<lparr>channels = [], videos = [], next_channel_id = 1, faults = [None], slept = [50, 80]\<rparr>)"
proof -
  have t1: "\<forall>e\<in>set [Obj True None ''wrapped'' (Some (Obj False (Some '' econnreset '') [] None)),
              Obj True None ''Terminating connection due to administrator command'' None].
            isTransientDatabaseError e"
    by code_simp
  have t2: "\<forall>e\<in>set [Obj True (Some ''EPIPE'') ''write'' None]. isTransientDatabaseError e"
    by code_simp
  have n2: "\<not> isTransientDatabaseError (Obj True (Some ''23505'') ''duplicate key'' None)"
    by code_simp
  have t3: "\<forall>e\<in>set [Obj True (Some ''57P01'') ''a'' None, Obj True (Some ''57P01'') ''b'' None].
            isTransientDatabaseError e"
    by code_simp
  show ?thesis
    using
      withDatabaseRetry_behaviour [OF t1, where rest = "[None, Some (Prim ''late'')]" and rest' = "[Some (Prim ''late'')]"
        and cfg = "\<lparr>DB_MAX_RETRIES = 5, DB_RETRY_BASE_MS = 500, DB_RETRY_MAX_MS = 5000\<rparr>"
        and f = "\<lambda>w. (length (videos w), w)"
        and w = "\<lparr>channels = [], videos = [], next_channel_id = 1,
                 faults = [Some (Obj True None ''wrapped'' (Some (Obj False (Some '' econnreset '') [] None))),
                   Some (Obj True None ''Terminating connection due to administrator command'' None),
                   None, Some (Prim ''late'')],
                 slept = []\<rparr>"]
      withDatabaseRetry_behaviour [OF t2, where rest = "[Some (Obj True (Some ''23505'') ''duplicate key'' None), None]"
        and rest' = "[None]" and e = "Obj True (Some ''23505'') ''duplicate key'' None"
        and cfg = "\<lparr>DB_MAX_RETRIES = 5, DB_RETRY_BASE_MS = 500, DB_RETRY_MAX_MS = 5000\<rparr>"
        and f = "\<lambda>w. (length (videos w), w)"
        and w = "\<lparr>channels = [], videos = [], next_channel_id = 1,
                 faults = [Some (Obj True (Some ''EPIPE'') ''write'' None),
                   Some (Obj True (Some ''23505'') ''duplicate key'' None), None],
                 slept = []\<rparr>"]
      withDatabaseRetry_behaviour [OF t3, where rest = "[Some (Obj True (Some ''57P01'') ''c'' None), None]"
        and rest' = "[None]" and e = "Obj True (Some ''57P01'') ''c'' None"
        and cfg = "\<lparr>DB_MAX_RETRIES = 3, DB_RETRY_BASE_MS = 10, DB_RETRY_MAX_MS = 80\<rparr>"
        and f = "\<lambda>w. (length (videos w), w)"
        and w = "\<lparr>channels = [], videos = [], next_channel_id = 1,
                 faults = [Some (Obj True (Some ''57P01'') ''a'' None),
                   Some (Obj True (Some ''57P01'') ''b'' None),
                   Some (Obj True (Some ''57P01'') ''c'' None), None],
                 slept = []\<rparr>"]
      n2
    by (simp add: maxAttempts_def baseDelay_def maxDelay_def upt_rec [of "Suc 0"] upt_rec [of 2])
qed

subsection \<open>Mapping a payload to rows\<close>

text \<open>\<^verbatim>\<open>export function toNonEmptyString(value: unknown)\<close>; \<open>None\<close> is \<^verbatim>\<open>undefined\<close>, both for
  the argument (an absent property) and for the result.\<close>

definition toNonEmptyString :: "json option \<Rightarrow> string option" where
  "toNonEmptyString v =
     (case v of
        Some (JStr s) \<Rightarrow> (let trimmed = trim s in if length trimmed > 0 then Some trimmed else None)
      | _ \<Rightarrow> None)"

definition toOptionalString :: "json option \<Rightarrow> string option" where
  "toOptionalString v = toNonEmptyString v"

text \<open>\<^verbatim>\<open>export function toIntegerOrNull(value: unknown)\<close>; \<open>None\<close> is \<^verbatim>\<open>null\<close>.\<close>

definition toIntegerOrNull :: "json option \<Rightarrow> jsnum option" where
  "toIntegerOrNull v =
     (case v of
        Some (JNum n) \<Rightarrow> if isFinite n \<and> js_ge n (num 0) then Some (Math_trunc n) else None
      | Some (JStr s) \<Rightarrow>
          (let parsed = Number s in
           if isFinite parsed \<and> js_ge parsed (num 0) then Some (Math_trunc parsed) else None)
      | _ \<Rightarrow> None)"

text \<open>\<^verbatim>\<open>export function getUploadedAtDate(video: RawVideo)\<close>\<close>

definition getUploadedAtDate :: "RawVideo \<Rightarrow> Date option" where
  "getUploadedAtDate video =
     (let from_upload_date =
            (case field video ''upload_date'' of
               Some (JStr s) \<Rightarrow>
                 (let parsed = parseUploadDate s in
                  if \<not> isNaN parsed \<and> js_gt parsed (num 0)
                  then Some (new_Date (js_times parsed 1000)) else None)
             | _ \<Rightarrow> None)
      in case field video ''timestamp'' of
           Some (JNum n) \<Rightarrow>
             if isFinite n \<and> js_gt n (num 0) then Some (new_Date (js_times n 1000))
             else from_upload_date
         | _ \<Rightarrow> from_upload_date)"

text \<open>\<^verbatim>\<open>export function resolveVideoUrl(video: RawVideo, fallbackId: string)\<close>\<close>

definition resolveVideoUrl :: "RawVideo \<Rightarrow> string \<Rightarrow> string" where
  "resolveVideoUrl video fallbackId =
     (let candidates = [toNonEmptyString (field video ''webpage_url''),
                        toNonEmptyString (field video ''url''),
                        Some (''https://www.youtube.com/watch?v='' @ fallbackId)]
      in case filter (\<lambda>candidate. candidate \<noteq> None \<and> candidate \<noteq> Some []) candidates of
           Some candidate # rest \<Rightarrow> candidate
         | _ \<Rightarrow> ''https://www.youtube.com/watch?v='' @ fallbackId)"

text \<open>\<^verbatim>\<open>export function isLiveVideo(video: RawVideo)\<close>\<close>

definition isLiveVideo :: "RawVideo \<Rightarrow> bool" where
  "isLiveVideo video =
     (case field video ''is_live'' of
        Some (JBool b) \<Rightarrow> b
      | _ \<Rightarrow>
          (case field video ''live_status'' of
             Some (JStr s) \<Rightarrow>
               (let normalized = toLowerCase s in normalized = ''is_live'' \<or> normalized = ''live'')
           | _ \<Rightarrow> False))"

text \<open>The operator \<^verbatim>\<open>??\<close> on values that are absent or present.\<close>

definition nullish :: "'a option \<Rightarrow> 'a option \<Rightarrow> 'a option" where
  "nullish a b = (case a of Some x \<Rightarrow> Some x | None \<Rightarrow> b)"

text \<open>\<^verbatim>\<open>function buildChannelInsertPayload(video, fallbackChannelUrl, scrapedAt)\<close>\<close>

definition buildChannelInsertPayload ::
  "url_platform \<Rightarrow> RawVideo \<Rightarrow> string \<Rightarrow> Date \<Rightarrow> ChannelInsert" where
  "buildChannelInsertPayload P video fallbackChannelUrl scraped =
     (let canonicalSource =
            (case nullish (toNonEmptyString (field video ''channel_url''))
                    (nullish (toNonEmptyString (field video ''playlist_channel_url''))
                       (toNonEmptyString (field video ''uploader_url''))) of
               Some u \<Rightarrow> u
             | None \<Rightarrow> fallbackChannelUrl);
          canonical = normalizeChannelUrl P canonicalSource
      in \<lparr>canonicalUrl = canonical,
          externalId = nullish (toNonEmptyString (field video ''channel_id''))
                         (nullish (toNonEmptyString (field video ''playlist_channel_id''))
                            (toNonEmptyString (field video ''uploader_id''))),
          handle = nullish (toNonEmptyString (field video ''channel_handle''))
                     (extractHandleFromUrl P canonical),
          displayName = nullish (toNonEmptyString (field video ''channel''))
                          (nullish (toNonEmptyString (field video ''playlist_channel''))
                             (toNonEmptyString (field video ''uploader''))),
          channel_updatedAt = scraped\<rparr>)"

text \<open>\<^verbatim>\<open>function mapRawVideoToInsert(video, channelId, scrapedAt)\<close>; \<open>None\<close> is \<^verbatim>\<open>null\<close>, and
  \<open>now\<close> is what \<^verbatim>\<open>new Date()\<close> answers.\<close>

definition mapRawVideoToInsert :: "Date \<Rightarrow> RawVideo \<Rightarrow> int \<Rightarrow> Date \<Rightarrow> VideoInsert option" where
  "mapRawVideoToInsert now video chanId scraped =
     (case toNonEmptyString (field video ''id'') of
        None \<Rightarrow> None
      | Some vid \<Rightarrow>
          Some \<lparr>video_id = vid,
                channelId = chanId,
                videoUrl = resolveVideoUrl video vid,
                title = (case toNonEmptyString (field video ''title'') of Some t \<Rightarrow> t | None \<Rightarrow> vid),
                description = toOptionalString (field video ''description''),
                durationSeconds = toIntegerOrNull (field video ''duration''),
                publishedTimestamp = toIntegerOrNull (field video ''timestamp''),
                uploadDate = toNonEmptyString (field video ''upload_date''),
                uploadedAt = getUploadedAtDate video,
                scrapedAt = scraped,
                isLive = isLiveVideo video,
                rawData = video,
                video_updatedAt = now\<rparr>)"

subsection \<open>Store operations\<close>

text \<open>
  The statements the code sends, as functions on the store. A statement is attempted
  through \<open>db_attempt\<close>: the next entry of \<open>faults\<close> says whether the store raises on this
  attempt (for whatever reason: connection loss, a violated constraint, a value out of
  range) or carries the statement out; with no entry left it carries it out.

  \<^verbatim>\<open>insert(channels).values(p).onConflictDoUpdate({target: canonicalUrl, set: ...}).returning()\<close>
\<close>

definition upsert_channel :: "ChannelInsert \<Rightarrow> world \<Rightarrow> ChannelRow list \<times> world" where
  "upsert_channel p w =
     (case filter (\<lambda>r. canonicalUrl r = canonicalUrl p) (channels w) of
        [] \<Rightarrow>
          (let row = \<lparr>canonicalUrl = canonicalUrl p, externalId = externalId p, handle = handle p,
                      displayName = displayName p, channel_updatedAt = channel_updatedAt p,
                      channel_id = next_channel_id w\<rparr>
           in ([row], w\<lparr>channels := channels w @ [row], next_channel_id := next_channel_id w + 1\<rparr>))
      | old # _ \<Rightarrow>
          (let row = old\<lparr>externalId := externalId p, handle := handle p,
                         displayName := displayName p, channel_updatedAt := channel_updatedAt p\<rparr>
           in ([row],
               w\<lparr>channels := map (\<lambda>r. if canonicalUrl r = canonicalUrl p then row else r)
                                (channels w)\<rparr>)))"

text \<open>\<^verbatim>\<open>insert(videos).values(mapped).onConflictDoNothing().returning({ id: videos.id })\<close>\<close>

definition insert_video :: "VideoInsert \<Rightarrow> world \<Rightarrow> string list \<times> world" where
  "insert_video mapped w =
     (if video_id mapped \<in> set (map video_id (videos w)) then ([], w)
      else ([video_id mapped], w\<lparr>videos := videos w @ [mapped]\<rparr>))"

subsection \<open>Ingesting one record\<close>

record IngestionStats =
  parsed :: nat
  inserted :: nat
  skippedExisting :: nat
  invalid :: nat

record IngestionContext =
  channelUrl :: string
  ctx_scrapedAt :: Date
  stats :: IngestionStats
  knownIds :: "string fset"
  channel :: "ChannelRow option"

record ingest_env =
  retry :: retry_config
  platform :: url_platform
  clock_now :: Date

text \<open>\<^verbatim>\<open>function createIngestionContext(database, channelUrl, bootstrap)\<close>\<close>

definition createIngestionContext ::
  "url_platform \<Rightarrow> Date \<Rightarrow> string \<Rightarrow> ChannelRow option \<Rightarrow> string fset \<Rightarrow> IngestionContext" where
  "createIngestionContext P now url boot_channel boot_known =
     \<lparr>channelUrl = normalizeChannelUrl P url,
      ctx_scrapedAt = now,
      stats = \<lparr>parsed = 0, inserted = 0, skippedExisting = 0, invalid = 0\<rparr>,
      knownIds = boot_known,
      channel = boot_channel\<rparr>"

text \<open>\<^verbatim>\<open>async function ensureChannelRecord(video, context)\<close>: the answer, the context (its
  \<^verbatim>\<open>channel\<close> possibly set) and the store.\<close>

definition ensureChannelRecord ::
  "ingest_env \<Rightarrow> RawVideo \<Rightarrow> IngestionContext \<Rightarrow> world
     \<Rightarrow> (thrown + ChannelRow) \<times> IngestionContext \<times> world" where
  "ensureChannelRecord E video context w =
     (case channel context of
        Some c \<Rightarrow> (Inr c, context, w)
      | None \<Rightarrow>
          (let insertPayload = buildChannelInsertPayload (platform E) video (channelUrl context)
                                 (ctx_scrapedAt context)
           in case withDatabaseRetry (retry E) (db_attempt (upsert_channel insertPayload)) w of
                (Inl e, w') \<Rightarrow> (Inl e, context, w')
              | (Inr rows, w') \<Rightarrow>
                  (case rows of
                     [] \<Rightarrow> (Inl (new_Error (''Failed to upsert channel '' @ canonicalUrl insertPayload
                                              @ ''; database returned no record.'')), context, w')
                   | record # _ \<Rightarrow> (Inr record, context\<lparr>channel := Some record\<rparr>, w'))))"

definition count_invalid :: "IngestionContext \<Rightarrow> IngestionContext" where
  "count_invalid context = context\<lparr>stats := (stats context)\<lparr>invalid := invalid (stats context) + 1\<rparr>\<rparr>"

definition count_skipped :: "IngestionContext \<Rightarrow> IngestionContext" where
  "count_skipped context =
     context\<lparr>stats := (stats context)\<lparr>skippedExisting := skippedExisting (stats context) + 1\<rparr>\<rparr>"

definition count_inserted :: "IngestionContext \<Rightarrow> IngestionContext" where
  "count_inserted context =
     context\<lparr>stats := (stats context)\<lparr>inserted := inserted (stats context) + 1\<rparr>\<rparr>"

definition add_known :: "string \<Rightarrow> IngestionContext \<Rightarrow> IngestionContext" where
  "add_known vid context = context\<lparr>knownIds := finsert vid (knownIds context)\<rparr>"

text \<open>\<^verbatim>\<open>async function ingestVideo(video, context)\<close>: \<open>Inr ()\<close> when it returns, \<open>Inl\<close> what it
  throws; the context and the store as it leaves them either way.\<close>

definition ingestVideo ::
  "ingest_env \<Rightarrow> RawVideo \<Rightarrow> IngestionContext \<Rightarrow> world
     \<Rightarrow> (thrown + unit) \<times> IngestionContext \<times> world" where
  "ingestVideo E video context w =
     (case ensureChannelRecord E video context w of
        (Inl e, context, w) \<Rightarrow> (Inl e, context, w)
      | (Inr chan, context, w) \<Rightarrow>
          (case mapRawVideoToInsert (clock_now E) video (channel_id chan) (ctx_scrapedAt context) of
             None \<Rightarrow> (Inr (), count_invalid context, w)
           | Some mapped \<Rightarrow>
               if video_id mapped |\<in>| knownIds context
               then (Inr (), count_skipped context, w)
               else
                 (case withDatabaseRetry (retry E) (db_attempt (insert_video mapped)) w of
                    (Inl e, w) \<Rightarrow> (Inl e, context, w)
                  | (Inr insertedRows, w) \<Rightarrow>
                      if length insertedRows = 0
                      then (Inr (), add_known (video_id mapped) (count_skipped context), w)
                      else (Inr (), add_known (video_id mapped) (count_inserted context), w))))"

text \<open>The callback \<^verbatim>\<open>onVideo\<close> that \<^verbatim>\<open>main\<close> passes to \<^verbatim>\<open>scrapeChannel\<close>.\<close>

definition onVideo ::
  "ingest_env \<Rightarrow> RawVideo \<Rightarrow> IngestionContext \<Rightarrow> world
     \<Rightarrow> (thrown + unit) \<times> IngestionContext \<times> world" where
  "onVideo E video context w =
     ingestVideo E video (context\<lparr>stats := (stats context)\<lparr>parsed := parsed (stats context) + 1\<rparr>\<rparr>) w"

subsection \<open>Ingesting one record: results\<close>

definition same_tables :: "world \<Rightarrow> world \<Rightarrow> bool" where
  "same_tables w0 w \<longleftrightarrow>
     channels w0 = channels w \<and> videos w0 = videos w \<and> next_channel_id w0 = next_channel_id w"

lemma same_tables_refl [simp]: "same_tables w w"
  by (simp add: same_tables_def)

lemma same_tables_trans: "same_tables a b \<Longrightarrow> same_tables b c \<Longrightarrow> same_tables a c"
  by (simp add: same_tables_def)

lemma db_attempt_cases:
  assumes "db_attempt f w = (res, w')"
  shows "(\<exists>w0 r. res = Inr r \<and> f w0 = (r, w') \<and> same_tables w0 w) \<or>
         (\<exists>e. res = Inl e \<and> same_tables w' w)"
proof (cases "faults w")
  case Nil
  obtain r w1 where "f w = (r, w1)" by (cases "f w")
  with assms Nil have "res = Inr r \<and> f w = (r, w') \<and> same_tables w w"
    by (simp add: db_attempt_def)
  then show ?thesis by blast
next
  case (Cons x rest)
  show ?thesis
  proof (cases x)
    case None
    obtain r w1 where "f (w\<lparr>faults := rest\<rparr>) = (r, w1)" by (cases "f (w\<lparr>faults := rest\<rparr>)")
    with assms Cons None
    have "res = Inr r \<and> f (w\<lparr>faults := rest\<rparr>) = (r, w') \<and> same_tables (w\<lparr>faults := rest\<rparr>) w"
      by (simp add: db_attempt_def same_tables_def)
    then show ?thesis by blast
  next
    case (Some e)
    with assms Cons have "res = Inl e \<and> same_tables w' w"
      by (auto simp: db_attempt_def same_tables_def)
    then show ?thesis by blast
  qed
qed

lemma retry_loop_cases_gen:
  assumes step: "\<And>w r1 w1. operation w = (r1, w1) \<Longrightarrow>
                   (\<exists>w0 r. r1 = Inr r \<and> f w0 = (r, w1) \<and> same_tables w0 w) \<or>
                   (\<exists>e. r1 = Inl e \<and> same_tables w1 w)"
  shows "retry_loop M b d operation a w = (res, w') \<Longrightarrow>
     (\<exists>w0 r. res = Inr r \<and> f w0 = (r, w') \<and> same_tables w0 w) \<or>
     (\<exists>e. res = Inl e \<and> same_tables w' w)"
  using step
proof (induction M b d operation a w rule: retry_loop.induct)
  case (1 M b d operation a w)
  note step = "1.prems"(2)
  show ?case
  proof (cases "a \<le> M")
    case False
    with "1.prems"(1) show ?thesis by (subst (asm) retry_loop_unfold) auto
  next
    case le: True
    obtain r1 w1 where att: "operation w = (r1, w1)" by (cases "operation w")
    from step [OF att] show ?thesis
    proof (elim disjE exE conjE)
      fix w0 r assume "r1 = Inr r" "f w0 = (r, w1)" "same_tables w0 w"
      with "1.prems"(1) le att show ?thesis by (subst (asm) retry_loop_unfold) auto
    next
      fix e assume e: "r1 = Inl e" and st: "same_tables w1 w"
      show ?thesis
      proof (cases "a = M \<or> \<not> isTransientDatabaseError e")
        case True
        with "1.prems"(1) le att e st show ?thesis by (subst (asm) retry_loop_unfold) auto
      next
        case False
        with "1.prems"(1) le att e
        have rec: "retry_loop M b d operation (a + 1) (sleep (retry_delay b d a) w1) = (res, w')"
          by (subst (asm) retry_loop_unfold) auto
        have st2: "same_tables (sleep (retry_delay b d a) w1) w"
          using st by (simp add: same_tables_def sleep_def)
        have "(\<exists>w0 r. res = Inr r \<and> f w0 = (r, w') \<and> same_tables w0 (sleep (retry_delay b d a) w1)) \<or>
              (\<exists>e. res = Inl e \<and> same_tables w' (sleep (retry_delay b d a) w1))"
          by (rule "1.IH" [OF le att [symmetric] e refl False rec step])
        then show ?thesis
        proof (elim disjE exE conjE)
          fix w0 r
          assume "res = Inr r" "f w0 = (r, w')" "same_tables w0 (sleep (retry_delay b d a) w1)"
          with st2 have "res = Inr r \<and> f w0 = (r, w') \<and> same_tables w0 w"
            using same_tables_trans by blast
          then show ?thesis by blast
        next
          fix e'
          assume "res = Inl e'" "same_tables w' (sleep (retry_delay b d a) w1)"
          with st2 have "res = Inl e' \<and> same_tables w' w"
            using same_tables_trans by blast
          then show ?thesis by blast
        qed
      qed
    qed
  qed
qed

lemma retry_loop_cases:
  "retry_loop M b d (db_attempt f) a w = (res, w') \<Longrightarrow>
     (\<exists>w0 r. res = Inr r \<and> f w0 = (r, w') \<and> same_tables w0 w) \<or>
     (\<exists>e. res = Inl e \<and> same_tables w' w)"
  by (rule retry_loop_cases_gen [where operation = "db_attempt f"]) (rule db_attempt_cases)

lemma withDatabaseRetry_cases:
  "withDatabaseRetry cfg (db_attempt f) w = (res, w') \<Longrightarrow>
     (\<exists>w0 r. res = Inr r \<and> f w0 = (r, w') \<and> same_tables w0 w) \<or>
     (\<exists>e. res = Inl e \<and> same_tables w' w)"
  unfolding withDatabaseRetry_def by (rule retry_loop_cases)

lemma withDatabaseRetry_no_fault:
  "faults w = [] \<Longrightarrow>
   withDatabaseRetry cfg (db_attempt f) w = (case f w of (r, w') \<Rightarrow> (Inr r, w'))"
  unfolding withDatabaseRetry_def
  by (subst retry_loop_unfold) (simp add: maxAttempts_def db_attempt_def split: prod.splits)

lemma withDatabaseRetry_first_failure:
  "faults w = Some e # rest \<Longrightarrow> \<not> isTransientDatabaseError e \<Longrightarrow>
   withDatabaseRetry cfg (db_attempt f) w = (Inl e, w\<lparr>faults := rest\<rparr>)"
  unfolding withDatabaseRetry_def
  by (subst retry_loop_unfold) (simp add: maxAttempts_def db_attempt_def)

lemma upsert_channel_videos: "upsert_channel p w0 = (rows, w1) \<Longrightarrow> videos w1 = videos w0"
  by (auto simp: upsert_channel_def Let_def split: list.splits)

lemma upsert_channel_returns: "upsert_channel p w0 = (rows, w1) \<Longrightarrow> rows \<noteq> []"
  by (auto simp: upsert_channel_def Let_def split: list.splits)

lemma insert_video_effect:
  assumes "insert_video mapped w0 = (rows, w1)"
  shows "(video_id mapped \<in> set (map video_id (videos w0)) \<longrightarrow> rows = [] \<and> videos w1 = videos w0) \<and>
         (video_id mapped \<notin> set (map video_id (videos w0)) \<longrightarrow>
            rows \<noteq> [] \<and> videos w1 = videos w0 @ [mapped])"
  using assms by (auto simp: insert_video_def split: if_splits)

lemma mapRawVideoToInsert_id:
  "mapRawVideoToInsert now video c sc = Some mapped \<Longrightarrow>
   toNonEmptyString (field video ''id'') = Some (video_id mapped)"
  by (auto simp: mapRawVideoToInsert_def split: option.splits)

lemma mapRawVideoToInsert_None:
  "mapRawVideoToInsert now video c sc = None \<longleftrightarrow> toNonEmptyString (field video ''id'') = None"
  by (auto simp: mapRawVideoToInsert_def split: option.splits)

lemma ensureChannelRecord_effect:
  assumes "ensureChannelRecord E video context w = (res, context', w')"
  shows "videos w' = videos w \<and> stats context' = stats context \<and>
         knownIds context' = knownIds context \<and> ctx_scrapedAt context' = ctx_scrapedAt context \<and>
         (\<forall>e. res = Inl e \<longrightarrow> channel context = None \<and> context' = context)"
proof (cases "channel context")
  case (Some c)
  with assms show ?thesis by (auto simp: ensureChannelRecord_def)
next
  case None
  let ?p = "buildChannelInsertPayload (platform E) video (channelUrl context) (ctx_scrapedAt context)"
  obtain r1 w1 where r: "withDatabaseRetry (retry E) (db_attempt (upsert_channel ?p)) w = (r1, w1)"
    by (cases "withDatabaseRetry (retry E) (db_attempt (upsert_channel ?p)) w")
  from withDatabaseRetry_cases [OF r] show ?thesis
  proof (elim disjE exE conjE)
    fix w0 rows
    assume a: "r1 = Inr rows" "upsert_channel ?p w0 = (rows, w1)" "same_tables w0 w"
    then have "videos w1 = videos w" "rows \<noteq> []"
      using upsert_channel_videos [OF a(2)] upsert_channel_returns [OF a(2)]
      by (simp_all add: same_tables_def)
    with assms None r a(1) show ?thesis
      by (auto simp: ensureChannelRecord_def Let_def split: list.splits)
  next
    fix e assume "r1 = Inl e" "same_tables w1 w"
    with assms None r show ?thesis
      by (auto simp: ensureChannelRecord_def Let_def same_tables_def)
  qed
qed

lemma ensureChannelRecord_resolved:
  "channel context = Some c \<Longrightarrow> ensureChannelRecord E video context w = (Inr c, context, w)"
  by (simp add: ensureChannelRecord_def)

lemma ensureChannelRecord_no_fault:
  assumes "faults w = []"
  shows "\<exists>c context' w'. ensureChannelRecord E video context w = (Inr c, context', w') \<and> faults w' = []"
proof (cases "channel context")
  case (Some c)
  with assms show ?thesis by (simp add: ensureChannelRecord_def)
next
  case None
  let ?p = "buildChannelInsertPayload (platform E) video (channelUrl context) (ctx_scrapedAt context)"
  obtain rows w1 where u: "upsert_channel ?p w = (rows, w1)" by (cases "upsert_channel ?p w")
  from upsert_channel_returns [OF u] obtain r rs where rows: "rows = r # rs" by (cases rows) auto
  have "faults w1 = []" using u assms by (auto simp: upsert_channel_def Let_def split: list.splits)
  with None u rows assms show ?thesis
    by (simp add: ensureChannelRecord_def Let_def withDatabaseRetry_no_fault)
qed

lemma ingestVideo_channel_failed:
  "ensureChannelRecord E video context w = (Inl e, c1, w1) \<Longrightarrow>
   ingestVideo E video context w = (Inl e, c1, w1)"
  by (simp add: ingestVideo_def)

lemma ingestVideo_invalid:
  "ensureChannelRecord E video context w = (Inr chan, c1, w1) \<Longrightarrow>
   toNonEmptyString (field video ''id'') = None \<Longrightarrow>
   ingestVideo E video context w = (Inr (), count_invalid c1, w1)"
  by (simp add: ingestVideo_def mapRawVideoToInsert_def)

lemma mapRawVideoToInsert_Some:
  "toNonEmptyString (field video ''id'') = Some i \<Longrightarrow>
   \<exists>mapped. mapRawVideoToInsert now video c sc = Some mapped \<and> video_id mapped = i"
  by (simp add: mapRawVideoToInsert_def)

lemma ingestVideo_known:
  assumes "ensureChannelRecord E video context w = (Inr chan, c1, w1)"
    and "toNonEmptyString (field video ''id'') = Some i" and "i |\<in>| knownIds c1"
  shows "ingestVideo E video context w = (Inr (), count_skipped c1, w1)"
proof -
  from mapRawVideoToInsert_Some [OF assms(2)]
  obtain mapped where
    "mapRawVideoToInsert (clock_now E) video (channel_id chan) (ctx_scrapedAt c1) = Some mapped"
    "video_id mapped = i" by blast
  with assms(1,3) show ?thesis by (simp add: ingestVideo_def)
qed

lemma ingestVideo_insert:
  assumes "ensureChannelRecord E video context w = (Inr chan, c1, w1)"
    and "mapRawVideoToInsert (clock_now E) video (channel_id chan) (ctx_scrapedAt c1) = Some mapped"
    and "video_id mapped |\<notin>| knownIds c1"
    and "withDatabaseRetry (retry E) (db_attempt (insert_video mapped)) w1 = (r2, w2)"
  shows "ingestVideo E video context w =
         (case r2 of
            Inl e \<Rightarrow> (Inl e, c1, w2)
          | Inr rows \<Rightarrow>
              (Inr (), add_known (video_id mapped)
                         (if rows = [] then count_skipped c1 else count_inserted c1), w2))"
  using assms by (simp add: ingestVideo_def split: sum.splits)

text \<open>The paths through one call of \<^verbatim>\<open>ingestVideo\<close>, and what each leaves behind.\<close>

lemma ingestVideo_paths [consumes 1, case_names channel_failed invalid known conflict inserted insert_failed]:
  assumes run: "ingestVideo E video context w = (res, context', w')"
  obtains
    e where "res = Inl e" "context' = context" "videos w' = videos w" "channel context = None"
  | "res = Inr ()" "toNonEmptyString (field video ''id'') = None"
      "stats context' = (stats context)\<lparr>invalid := invalid (stats context) + 1\<rparr>"
      "knownIds context' = knownIds context" "videos w' = videos w"
  | i where "res = Inr ()" "toNonEmptyString (field video ''id'') = Some i" "i |\<in>| knownIds context"
      "stats context' = (stats context)\<lparr>skippedExisting := skippedExisting (stats context) + 1\<rparr>"
      "knownIds context' = knownIds context" "videos w' = videos w"
  | i where "res = Inr ()" "toNonEmptyString (field video ''id'') = Some i" "i |\<notin>| knownIds context"
      "i \<in> set (map video_id (videos w))"
      "stats context' = (stats context)\<lparr>skippedExisting := skippedExisting (stats context) + 1\<rparr>"
      "knownIds context' = finsert i (knownIds context)" "videos w' = videos w"
  | i mapped where "res = Inr ()" "toNonEmptyString (field video ''id'') = Some i"
      "i |\<notin>| knownIds context" "i \<notin> set (map video_id (videos w))"
      "stats context' = (stats context)\<lparr>inserted := inserted (stats context) + 1\<rparr>"
      "knownIds context' = finsert i (knownIds context)"
      "video_id mapped = i" "videos w' = videos w @ [mapped]"
  | e i where "res = Inl e" "toNonEmptyString (field video ''id'') = Some i"
      "i |\<notin>| knownIds context" "stats context' = stats context"
      "knownIds context' = knownIds context" "videos w' = videos w"
proof -
  obtain r1 c1 w1 where ens: "ensureChannelRecord E video context w = (r1, c1, w1)"
    by (cases "ensureChannelRecord E video context w") auto
  from ensureChannelRecord_effect [OF ens]
  have v1: "videos w1 = videos w" and s1: "stats c1 = stats context"
    and k1: "knownIds c1 = knownIds context"
    and f1: "\<And>e. r1 = Inl e \<Longrightarrow> channel context = None \<and> c1 = context"
    by simp_all
  show ?thesis
  proof (cases r1)
    case (Inl e)
    from ingestVideo_channel_failed [OF ens [unfolded Inl]] run
    have "res = Inl e" "context' = c1" "w' = w1" by simp_all
    with f1 [OF Inl] v1 show ?thesis by (intro that(1) [of e]) simp_all
  next
    case (Inr chan)
    note ens' = ens [unfolded Inr]
    show ?thesis
    proof (cases "toNonEmptyString (field video ''id'')")
      case None
      from ingestVideo_invalid [OF ens' None] run
      have "res = Inr ()" "context' = count_invalid c1" "w' = w1" by simp_all
      with None v1 s1 k1 show ?thesis
        by (intro that(2)) (simp_all add: count_invalid_def)
    next
      case (Some i)
      show ?thesis
      proof (cases "i |\<in>| knownIds c1")
        case True
        from ingestVideo_known [OF ens' Some True] run
        have "res = Inr ()" "context' = count_skipped c1" "w' = w1" by simp_all
        with Some True v1 s1 k1 show ?thesis
          by (intro that(3) [of i]) (simp_all add: count_skipped_def)
      next
        case False
        from mapRawVideoToInsert_Some [OF Some]
        obtain mapped where
          m: "mapRawVideoToInsert (clock_now E) video (channel_id chan) (ctx_scrapedAt c1) = Some mapped"
          and mi: "video_id mapped = i" by blast
        from False mi have nk: "video_id mapped |\<notin>| knownIds c1" by simp
        obtain r2 w2 where
          ins: "withDatabaseRetry (retry E) (db_attempt (insert_video mapped)) w1 = (r2, w2)"
          by (cases "withDatabaseRetry (retry E) (db_attempt (insert_video mapped)) w1")
        note eq = ingestVideo_insert [OF ens' m nk ins]
        from withDatabaseRetry_cases [OF ins] show ?thesis
        proof (elim disjE exE conjE)
          fix w0 rows
          assume a: "r2 = Inr rows" "insert_video mapped w0 = (rows, w2)" "same_tables w0 w1"
          from a(3) v1 have v0: "videos w0 = videos w" by (simp add: same_tables_def)
          note ie = insert_video_effect [OF a(2), unfolded v0 mi]
          show ?thesis
          proof (cases "i \<in> set (map video_id (videos w))")
            case True
            with ie have rows: "rows = []" and v2: "videos w2 = videos w" by simp_all
            from eq run a(1) rows
            have "res = Inr ()" "context' = add_known i (count_skipped c1)" "w' = w2"
              by (simp_all add: mi)
            with Some False True v2 s1 k1 show ?thesis
              by (intro that(4) [of i]) (simp_all add: count_skipped_def add_known_def)
          next
            case nin: False
            with ie have rows: "rows \<noteq> []" and v2: "videos w2 = videos w @ [mapped]" by simp_all
            from eq run a(1) rows
            have "res = Inr ()" "context' = add_known i (count_inserted c1)" "w' = w2"
              by (simp_all add: mi)
            with Some False nin v2 s1 k1 mi show ?thesis
              by (intro that(5) [of i mapped]) (simp_all add: count_inserted_def add_known_def)
          qed
        next
          fix e assume a: "r2 = Inl e" "same_tables w2 w1"
          from eq run a(1) have "res = Inl e" "context' = c1" "w' = w2" by simp_all
          with Some False a(2) v1 s1 k1 show ?thesis
            by (intro that(6) [of e i]) (simp_all add: same_tables_def)
        qed
      qed
    qed
  qed
qed

lemma ingestVideo_returns_no_fault:
  assumes "faults w = []"
  shows "\<exists>context' w'. ingestVideo E video context w = (Inr (), context', w')"
proof -
  from ensureChannelRecord_no_fault [OF assms]
  obtain chan c1 w1 where ens: "ensureChannelRecord E video context w = (Inr chan, c1, w1)"
    and f1: "faults w1 = []" by blast
  show ?thesis
  proof (cases "toNonEmptyString (field video ''id'')")
    case None
    from ingestVideo_invalid [OF ens None] show ?thesis by blast
  next
    case (Some i)
    show ?thesis
    proof (cases "i |\<in>| knownIds c1")
      case True
      from ingestVideo_known [OF ens Some True] show ?thesis by blast
    next
      case False
      from mapRawVideoToInsert_Some [OF Some]
      obtain mapped where
        m: "mapRawVideoToInsert (clock_now E) video (channel_id chan) (ctx_scrapedAt c1) = Some mapped"
        and mi: "video_id mapped = i" by blast
      from False mi have nk: "video_id mapped |\<notin>| knownIds c1" by simp
      obtain rows w2 where iv: "insert_video mapped w1 = (rows, w2)" by (cases "insert_video mapped w1")
      have "withDatabaseRetry (retry E) (db_attempt (insert_video mapped)) w1 = (Inr rows, w2)"
        by (simp add: withDatabaseRetry_no_fault [OF f1] iv)
      from ingestVideo_insert [OF ens m nk this] show ?thesis by simp
    qed
  qed
qed

lemma ingestVideo_channel_upsert_fails:
  assumes "channel context = None" "faults w = Some e # rest" "\<not> isTransientDatabaseError e"
  shows "ingestVideo E video context w = (Inl e, context, w\<lparr>faults := rest\<rparr>)"
proof -
  have "ensureChannelRecord E video context w = (Inl e, context, w\<lparr>faults := rest\<rparr>)"
    using assms by (simp add: ensureChannelRecord_def Let_def withDatabaseRetry_first_failure)
  then show ?thesis by (rule ingestVideo_channel_failed)
qed

text \<open>
  C6 (as the code has it). For a record whose id is absent, not a string or all white
  space: \<^verbatim>\<open>ingestVideo\<close> first makes sure of the channel record. With the channel already
  resolved it touches neither store nor known ids, adds one to the invalid counter and
  returns; with no store error it returns as well. Whenever it returns, the invalid
  counter is one higher, the inserted, skipped and parsed counters and the known-id set
  are as before, and no video row was written. It throws only when the channel was not
  resolved and its upsert failed; then no counter has moved and no video row was written.
\<close>

theorem ingestVideo_malformed:
  assumes "toNonEmptyString (field video ''id'') = None"
  shows "(channel context \<noteq> None \<longrightarrow>
            ingestVideo E video context w =
              (Inr (), context\<lparr>stats := (stats context)\<lparr>invalid := invalid (stats context) + 1\<rparr>\<rparr>, w))
       \<and> (faults w = [] \<longrightarrow> (\<exists>c' w''. ingestVideo E video context w = (Inr (), c', w'')))
       \<and> (ingestVideo E video context w = (Inr (), context', w') \<longrightarrow>
            invalid (stats context') = invalid (stats context) + 1 \<and>
            inserted (stats context') = inserted (stats context) \<and>
            skippedExisting (stats context') = skippedExisting (stats context) \<and>
            parsed (stats context') = parsed (stats context) \<and>
            knownIds context' = knownIds context \<and> videos w' = videos w)
       \<and> (ingestVideo E video context w = (Inl e, context', w') \<longrightarrow>
            channel context = None \<and> context' = context \<and> videos w' = videos w)"
proof (intro conjI impI)
  assume "channel context \<noteq> None"
  then obtain c where "channel context = Some c" by auto
  from ingestVideo_invalid [OF ensureChannelRecord_resolved [OF this] assms]
  show "ingestVideo E video context w =
          (Inr (), context\<lparr>stats := (stats context)\<lparr>invalid := invalid (stats context) + 1\<rparr>\<rparr>, w)"
    by (simp add: count_invalid_def)
next
  assume "faults w = []"
  then show "\<exists>c' w''. ingestVideo E video context w = (Inr (), c', w'')"
    by (rule ingestVideo_returns_no_fault)
next
  assume run: "ingestVideo E video context w = (Inr (), context', w')"
  from run assms
  have "stats context' = (stats context)\<lparr>invalid := invalid (stats context) + 1\<rparr> \<and>
        knownIds context' = knownIds context \<and> videos w' = videos w"
    by (cases rule: ingestVideo_paths) simp_all
  then show "invalid (stats context') = invalid (stats context) + 1"
    "inserted (stats context') = inserted (stats context)"
    "skippedExisting (stats context') = skippedExisting (stats context)"
    "parsed (stats context') = parsed (stats context)"
    "knownIds context' = knownIds context" "videos w' = videos w"
    by simp_all
next
  assume run: "ingestVideo E video context w = (Inl e, context', w')"
  from run assms
  have "channel context = None \<and> context' = context \<and> videos w' = videos w"
    by (cases rule: ingestVideo_paths) simp_all
  then show "channel context = None" "context' = context" "videos w' = videos w"
    by simp_all
qed

text \<open>Values for the examples: a configuration, a resolved channel, an empty store.\<close>

definition example_env :: ingest_env where
  "example_env =
     \<lparr>retry = \<lparr>DB_MAX_RETRIES = 5, DB_RETRY_BASE_MS = 500, DB_RETRY_MAX_MS = 5000\<rparr>,
      platform = simple_platform, clock_now = DateMs 1705276800000\<rparr>"

definition example_channel :: ChannelRow where
  "example_channel =
     \<lparr>canonicalUrl = ''https://www.youtube.com/@CareyNieuwhof/'', externalId = None,
      handle = Some ''@CareyNieuwhof'', displayName = None,
      channel_updatedAt = DateMs 1705276800000, channel_id = 1\<rparr>"

definition example_context :: "ChannelRow option \<Rightarrow> string fset \<Rightarrow> IngestionContext" where
  "example_context chan known =
     \<lparr>channelUrl = ''https://www.youtube.com/@CareyNieuwhof/'',
      ctx_scrapedAt = DateMs 1705276800000,
      stats = \<lparr>parsed = 0, inserted = 0, skippedExisting = 0, invalid = 0\<rparr>,
      knownIds = known, channel = chan\<rparr>"

definition example_world :: "VideoInsert list \<Rightarrow> thrown option list \<Rightarrow> world" where
  "example_world rows fs =
     \<lparr>channels = [example_channel], videos = rows, next_channel_id = 2, faults = fs, slept = []\<rparr>"


theorem ingestVideo_malformed_witness:
  "ingestVideo example_env [(''title'', JStr ''no id'')]
     (example_context (Some example_channel) {||}) (example_world [] [])
   = (Inr (),
      (example_context (Some example_channel) {||})
        \<lparr>stats := \<lparr>parsed = 0, inserted = 0, skippedExisting = 0, invalid = 1\<rparr>\<rparr>,
      example_world [] [])
   \<and> ingestVideo example_env [(''id'', JStr ''   ''), (''title'', JStr ''blank id'')]
     (example_context (Some example_channel) {||}) (example_world [] [])
   = (Inr (),
      (example_context (Some example_channel) {||})
        \<lparr>stats := \<lparr>parsed = 0, inserted = 0, skippedExisting = 0, invalid = 1\<rparr>\<rparr>,
      example_world [] [])
   \<and> ingestVideo example_env [(''id'', JNum (Fin 7))]
     (example_context (Some example_channel) {||}) (example_world [] [])
   = (Inr (),
      (example_context (Some example_channel) {||})
        \<lparr>stats := \<lparr>parsed = 0, inserted = 0, skippedExisting = 0, invalid = 1\<rparr>\<rparr>,
      example_world [] [])"
proof -
  have a: "toNonEmptyString (field [(''title'', JStr ''no id'')] ''id'') = None"
    by (simp add: toNonEmptyString_def field_def)
  have b: "toNonEmptyString (field [(''id'', JStr ''   ''), (''title'', JStr ''blank id'')] ''id'') = None"
    by (simp add: toNonEmptyString_def field_def trim_def is_ws_def js_whitespace_def)
  have c: "toNonEmptyString (field [(''id'', JNum (Fin 7))] ''id'') = None"
    by (simp add: toNonEmptyString_def field_def)
  show ?thesis
    using ingestVideo_malformed [OF a, THEN conjunct1,
        of "example_context (Some example_channel) {||}" example_env "example_world [] []"]
      ingestVideo_malformed [OF b, THEN conjunct1,
        of "example_context (Some example_channel) {||}" example_env "example_world [] []"]
      ingestVideo_malformed [OF c, THEN conjunct1,
        of "example_context (Some example_channel) {||}" example_env "example_world [] []"]
    by (simp add: example_context_def)
qed


text \<open>
  A record without an id arrives before any channel is resolved, and the store refuses
  the channel upsert with a unique-violation error, which is not transient. The invalid
  counter stays at 0 and \<^verbatim>\<open>ingestVideo\<close> throws.
\<close>

theorem ingestVideo_malformed_counterexample:
  "toNonEmptyString (field [(''title'', JStr ''no id'')] ''id'') = None
   \<and> ingestVideo example_env [(''title'', JStr ''no id'')] (example_context None {||})
       (example_world [] [Some (Obj True (Some ''23505'') ''duplicate key'' None)])
     = (Inl (Obj True (Some ''23505'') ''duplicate key'' None),
        example_context None {||}, example_world [] [])
   \<and> invalid (stats (example_context None {||})) = 0"
proof -
  have nt: "\<not> isTransientDatabaseError (Obj True (Some ''23505'') ''duplicate key'' None)"
    by code_simp
  have "ingestVideo example_env [(''title'', JStr ''no id'')] (example_context None {||})
       (example_world [] [Some (Obj True (Some ''23505'') ''duplicate key'' None)])
     = (Inl (Obj True (Some ''23505'') ''duplicate key'' None), example_context None {||},
        (example_world [] [Some (Obj True (Some ''23505'') ''duplicate key'' None)])\<lparr>faults := []\<rparr>)"
    by (rule ingestVideo_channel_upsert_fails [OF _ _ nt])
       (simp_all add: example_context_def example_world_def)
  then show ?thesis
    by (simp add: example_world_def example_context_def toNonEmptyString_def field_def)
qed

lemma one_row_per_key:
  "distinct (map f xs) \<Longrightarrow> x \<in> set (map f xs) \<Longrightarrow> length (filter (\<lambda>r. f r = x) xs) = 1"
proof (induction xs)
  case Nil
  then show ?case by simp
next
  case (Cons a xs)
  show ?case
  proof (cases "f a = x")
    case True
    from Cons.prems(1) have "f a \<notin> f ` set xs" by simp
    with True have "\<forall>r\<in>set xs. f r \<noteq> x" by (metis imageI)
    then have "filter (\<lambda>r. f r = x) xs = []" by (simp add: filter_empty_conv)
    with True show ?thesis by simp
  next
    case False
    with Cons show ?thesis by auto
  qed
qed

text \<open>The two facts about the store that the next result assumes are kept by every call.\<close>

lemma ingestVideo_keeps_store_invariant:
  assumes run: "ingestVideo E video context w = (res, context', w')"
    and key: "distinct (map video_id (videos w))"
    and inv: "fset (knownIds context) \<subseteq> set (map video_id (videos w))"
  shows "distinct (map video_id (videos w')) \<and>
         fset (knownIds context') \<subseteq> set (map video_id (videos w'))"
  using run key inv by (cases rule: ingestVideo_paths) auto

text \<open>
  C4. Let the record's trimmed id be \<open>i\<close>, let the video table hold one row per id (its
  primary key), let every id of the in-memory known-id set be stored (the set is seeded
  from the store and grows only by ids just written or found there), and let \<open>i\<close> be
  present already, in the set or in the store. Then \<^verbatim>\<open>ingestVideo\<close> returns whenever the id
  is in the set with the channel resolved, and whenever the store raises no error; and
  whenever it returns, the table is as before and holds exactly one row for \<open>i\<close>, the
  skipped-existing counter is one higher, the inserted and invalid counters are as
  before, and \<open>i\<close> is in the known-id set.
\<close>

theorem ingestVideo_idempotent:
  assumes id: "toNonEmptyString (field video ''id'') = Some i"
    and key: "distinct (map video_id (videos w))"
    and inv: "fset (knownIds context) \<subseteq> set (map video_id (videos w))"
    and present: "i |\<in>| knownIds context \<or> i \<in> set (map video_id (videos w))"
  shows "((i |\<in>| knownIds context \<and> channel context \<noteq> None) \<or> faults w = [] \<longrightarrow>
            (\<exists>c' w''. ingestVideo E video context w = (Inr (), c', w'')))
       \<and> (ingestVideo E video context w = (Inr (), context', w') \<longrightarrow>
            videos w' = videos w \<and>
            length (filter (\<lambda>r. video_id r = i) (videos w')) = 1 \<and>
            skippedExisting (stats context') = skippedExisting (stats context) + 1 \<and>
            inserted (stats context') = inserted (stats context) \<and>
            invalid (stats context') = invalid (stats context) \<and>
            i |\<in>| knownIds context')"
proof (intro conjI impI)
  assume "(i |\<in>| knownIds context \<and> channel context \<noteq> None) \<or> faults w = []"
  then show "\<exists>c' w''. ingestVideo E video context w = (Inr (), c', w'')"
  proof
    assume a: "i |\<in>| knownIds context \<and> channel context \<noteq> None"
    then obtain c where "channel context = Some c" by auto
    from ingestVideo_known [OF ensureChannelRecord_resolved [OF this] id] a
    show ?thesis by blast
  next
    assume "faults w = []"
    then show ?thesis by (rule ingestVideo_returns_no_fault)
  qed
next
  assume run: "ingestVideo E video context w = (Inr (), context', w')"
  from present inv have stored: "i \<in> set (map video_id (videos w))" by auto
  from run id stored
  have "videos w' = videos w \<and>
        stats context' = (stats context)\<lparr>skippedExisting := skippedExisting (stats context) + 1\<rparr> \<and>
        i |\<in>| knownIds context'"
    by (cases rule: ingestVideo_paths) simp_all
  moreover from key stored have "length (filter (\<lambda>r. video_id r = i) (videos w)) = 1"
    by (rule one_row_per_key)
  ultimately show "videos w' = videos w"
    "length (filter (\<lambda>r. video_id r = i) (videos w')) = 1"
    "skippedExisting (stats context') = skippedExisting (stats context) + 1"
    "inserted (stats context') = inserted (stats context)"
    "invalid (stats context') = invalid (stats context)"
    "i |\<in>| knownIds context'"
    by simp_all
qed

definition example_row :: VideoInsert where
  "example_row =
     \<lparr>video_id = ''abc123'', channelId = 1,
      videoUrl = ''https://www.youtube.com/watch?v=abc123'', title = ''abc123'',
      description = None, durationSeconds = None, publishedTimestamp = None,
      uploadDate = None, uploadedAt = None, scrapedAt = DateMs 1705276800000,
      isLive = False, rawData = [(''id'', JStr ''abc123'')],
      video_updatedAt = DateMs 1705276800000\<rparr>"

theorem ingestVideo_idempotent_witness:
  "(\<exists>c' w'. ingestVideo example_env [(''id'', JStr '' abc123 '')]
                (example_context (Some example_channel) {|''abc123''|})
                (example_world [example_row] [Some (Prim ''unused'')]) = (Inr (), c', w')
            \<and> length (filter (\<lambda>r. video_id r = ''abc123'') (videos w')) = 1
            \<and> skippedExisting (stats c') = 1 \<and> inserted (stats c') = 0
            \<and> ''abc123'' |\<in>| knownIds c')
   \<and> (\<exists>c' w'. ingestVideo example_env [(''id'', JStr '' abc123 '')]
                (example_context None {||}) (example_world [example_row] []) = (Inr (), c', w')
            \<and> length (filter (\<lambda>r. video_id r = ''abc123'') (videos w')) = 1
            \<and> skippedExisting (stats c') = 1 \<and> inserted (stats c') = 0
            \<and> ''abc123'' |\<in>| knownIds c')"
proof -
  have id: "toNonEmptyString (field [(''id'', JStr '' abc123 '')] ''id'') = Some ''abc123''"
    by (simp add: toNonEmptyString_def field_def trim_def is_ws_def js_whitespace_def)
  have key: "distinct (map video_id (videos (example_world [example_row] fs)))" for fs
    by (simp add: example_world_def)
  have st: "''abc123'' \<in> set (map video_id (videos (example_world [example_row] fs)))" for fs
    by (simp add: example_world_def example_row_def)
  let ?c1 = "example_context (Some example_channel) {|''abc123''|}"
  let ?w1 = "example_world [example_row] [Some (Prim ''unused'')]"
  have inv1: "fset (knownIds ?c1) \<subseteq> set (map video_id (videos ?w1))"
    by (simp add: example_context_def example_world_def example_row_def)
  have p1: "''abc123'' |\<in>| knownIds ?c1 \<or> ''abc123'' \<in> set (map video_id (videos ?w1))"
    by (simp add: example_context_def)
  note t1 = ingestVideo_idempotent [OF id key inv1 p1, where E = example_env]
  from t1 [THEN conjunct1]
  obtain c1 w1 where r1: "ingestVideo example_env [(''id'', JStr '' abc123 '')] ?c1 ?w1 = (Inr (), c1, w1)"
    by (auto simp: example_context_def)
  from t1 [of c1 w1, THEN conjunct2] r1
  have a: "length (filter (\<lambda>r. video_id r = ''abc123'') (videos w1)) = 1
            \<and> skippedExisting (stats c1) = 1 \<and> inserted (stats c1) = 0
            \<and> ''abc123'' |\<in>| knownIds c1"
    by (simp add: example_context_def example_world_def example_row_def)
  let ?c2 = "example_context None {||}"
  let ?w2 = "example_world [example_row] []"
  have inv2: "fset (knownIds ?c2) \<subseteq> set (map video_id (videos ?w2))"
    by (simp add: example_context_def)
  have p2: "''abc123'' |\<in>| knownIds ?c2 \<or> ''abc123'' \<in> set (map video_id (videos ?w2))"
    using st by simp
  note t2 = ingestVideo_idempotent [OF id key inv2 p2, where E = example_env]
  from t2 [THEN conjunct1]
  obtain c2 w2 where r2: "ingestVideo example_env [(''id'', JStr '' abc123 '')] ?c2 ?w2 = (Inr (), c2, w2)"
    by (auto simp: example_world_def)
  from t2 [of c2 w2, THEN conjunct2] r2
  have b: "length (filter (\<lambda>r. video_id r = ''abc123'') (videos w2)) = 1
            \<and> skippedExisting (stats c2) = 1 \<and> inserted (stats c2) = 0
            \<and> ''abc123'' |\<in>| knownIds c2"
    by (simp add: example_context_def example_world_def example_row_def)
  from r1 a r2 b show ?thesis by blast
qed

section \<open>Stream-ingestion controller\<close>

text \<open>
  \<^verbatim>\<open>scrapeChannel\<close> runs on one event loop. Its handlers and the continuations of the
  persistence tasks run one at a time, in an order the environment picks; an event of
  the model is one such piece of work:
  \<^item> \<open>Stdout chunk\<close>, \<open>Stderr chunk\<close>: a \<^verbatim>\<open>data\<close> event of the child's output streams;
  \<^item> \<open>SpawnError e\<close>: the child's \<^verbatim>\<open>error\<close> event;
  \<^item> \<open>Step k\<close>: the \<open>k\<close>-th dispatched task resumes after the store operation it awaits;
  \<^item> \<open>Close code\<close>: the child's \<^verbatim>\<open>close\<close> event, with its exit code (\<open>None\<close> for \<^verbatim>\<open>null\<close>).

  A task is \<^verbatim>\<open>onVideo(video)\<close>. Its synchronous start runs inside \<^verbatim>\<open>enqueueVideo\<close>: the parsed
  counter goes up and \<^verbatim>\<open>ensureChannelRecord\<close> either finds the channel in the context or
  sends the upsert. A store operation, retries included, takes effect when the task
  resumes from it. \<^verbatim>\<open>JSON.parse\<close> is a parameter: it answers the object of a line (yt-dlp prints
  one object per line) or the message of its \<^verbatim>\<open>SyntaxError\<close>. \<^verbatim>\<open>maybeLogProgress\<close>, the heartbeat
  and the warnings only write to the console.
\<close>

datatype task =
    AwaitChannel RawVideo "ChannelRow + ChannelInsert"
  | AwaitInsert VideoInsert
  | Fulfilled
  | Rejected thrown

datatype phase = Streaming | Draining "int option" | Finished "int option" | Aborted

datatype event = Stdout string | Stderr string | SpawnError thrown | Step nat | Close "int option"

record run_env =
  ingest :: ingest_env
  JSON_parse :: "string \<Rightarrow> string + RawVideo"

text \<open>
  The variables of the promise executor in \<^verbatim>\<open>scrapeChannel\<close>, the ingestion context and the
  store. \<open>settle_calls\<close> lists the calls of \<^verbatim>\<open>resolve\<close> and \<^verbatim>\<open>reject\<close> in the order they
  were made: the promise takes the first and ignores the rest. \<open>child_killed\<close> records that
  \<^verbatim>\<open>child.kill()\<close> was called; the child counts as running until its \<^verbatim>\<open>close\<close> event.
\<close>

record run_state =
  rs_context :: IngestionContext
  rs_world :: world
  parsedCount :: nat
  stdoutBuffer :: string
  stderrBuffer :: string
  ingestionError :: "thrown option"
  tasks :: "task list"
  settle_calls :: "(thrown + nat) list"
  child_killed :: bool
  phase :: phase


definition resolve :: "nat \<Rightarrow> run_state \<Rightarrow> run_state" where
  "resolve n st = st\<lparr>settle_calls := settle_calls st @ [Inr n]\<rparr>"

definition reject :: "thrown \<Rightarrow> run_state \<Rightarrow> run_state" where
  "reject e st = st\<lparr>settle_calls := settle_calls st @ [Inl e]\<rparr>"

fun in_flight :: "task \<Rightarrow> bool" where
  "in_flight (AwaitChannel v src) = True"
| "in_flight (AwaitInsert m) = True"
| "in_flight t = False"

fun is_rejected :: "task \<Rightarrow> bool" where
  "is_rejected (Rejected e) = True"
| "is_rejected t = False"

text \<open>\<^verbatim>\<open>error instanceof Error ? error : new Error(String(error))\<close>\<close>

fun as_Error :: "thrown \<Rightarrow> thrown" where
  "as_Error (Prim t) = new_Error t"
| "as_Error (Obj ie c m ca) = (if ie then Obj ie c m ca else new_Error ''[object Object]'')"

text \<open>\<^verbatim>\<open>const abortChild = () => { if (child.exitCode === null && !child.killed) child.kill() }\<close>\<close>

definition abortChild :: "run_state \<Rightarrow> run_state" where
  "abortChild st =
     (if phase st = Streaming \<and> \<not> child_killed st then st\<lparr>child_killed := True\<rparr> else st)"

text \<open>\<^verbatim>\<open>const enqueueVideo = (video) => { ... }\<close> with the synchronous start of
  \<^verbatim>\<open>options.onVideo(video)\<close>.\<close>

definition enqueueVideo :: "run_env \<Rightarrow> RawVideo \<Rightarrow> run_state \<Rightarrow> run_state" where
  "enqueueVideo E video st =
     (if ingestionError st \<noteq> None then st
      else
        (let c = rs_context st;
             c = c\<lparr>stats := (stats c)\<lparr>parsed := parsed (stats c) + 1\<rparr>\<rparr>;
             t = (case channel c of
                    Some row \<Rightarrow> AwaitChannel video (Inl row)
                  | None \<Rightarrow>
                      AwaitChannel video
                        (Inr (buildChannelInsertPayload (platform (ingest E)) video (channelUrl c)
                                (ctx_scrapedAt c))))
         in st\<lparr>rs_context := c, tasks := tasks st @ [t]\<rparr>))"

text \<open>The end of the \<^verbatim>\<open>close\<close> handler, after \<^verbatim>\<open>await Promise.allSettled(inFlightIngestions)\<close>.\<close>

definition exit_message :: "int option \<Rightarrow> string \<Rightarrow> string" where
  "exit_message code err =
     ''yt-dlp exited with code '' @ (case code of None \<Rightarrow> ''null'' | Some n \<Rightarrow> int_to_string n)
       @ ''. stderr:'' @ [CHR 0x0A] @ trim err"

definition finish_close :: "int option \<Rightarrow> run_state \<Rightarrow> run_state" where
  "finish_close code st =
     (let st = st\<lparr>phase := Finished code\<rparr> in
      case ingestionError st of
        Some e \<Rightarrow> reject e st
      | None \<Rightarrow>
          if code \<noteq> Some 0 \<and> parsedCount st = 0
          then reject (new_Error (exit_message code (stderrBuffer st))) st
          else resolve (parsedCount st) st)"

definition after_settle :: "run_state \<Rightarrow> run_state" where
  "after_settle st =
     (case phase st of
        Draining code \<Rightarrow> if list_ex in_flight (tasks st) then st else finish_close code st
      | _ \<Rightarrow> st)"

text \<open>A task ends: \<^verbatim>\<open>.catch\<close> of \<^verbatim>\<open>enqueueVideo\<close> for a failure, then \<^verbatim>\<open>.finally\<close> of
  \<^verbatim>\<open>trackIngestionTask\<close>.\<close>

definition task_fulfilled :: "nat \<Rightarrow> run_state \<Rightarrow> run_state" where
  "task_fulfilled k st = after_settle (st\<lparr>tasks := (tasks st)[k := Fulfilled]\<rparr>)"

definition task_rejected :: "nat \<Rightarrow> thrown \<Rightarrow> run_state \<Rightarrow> run_state" where
  "task_rejected k e st =
     (let st = (if ingestionError st = None
                then abortChild (st\<lparr>ingestionError := Some (as_Error e)\<rparr>) else st);
          err = (case ingestionError st of Some x \<Rightarrow> x | None \<Rightarrow> e)
      in after_settle (st\<lparr>tasks := (tasks st)[k := Rejected err]\<rparr>))"

text \<open>\<^verbatim>\<open>ingestVideo\<close> from the point where the channel record is at hand.\<close>

definition continue_with_channel ::
  "run_env \<Rightarrow> nat \<Rightarrow> RawVideo \<Rightarrow> ChannelRow \<Rightarrow> run_state \<Rightarrow> run_state" where
  "continue_with_channel E k video chan st =
     (let c = rs_context st in
      case mapRawVideoToInsert (clock_now (ingest E)) video (channel_id chan) (ctx_scrapedAt c) of
        None \<Rightarrow> task_fulfilled k (st\<lparr>rs_context := count_invalid c\<rparr>)
      | Some mapped \<Rightarrow>
          if video_id mapped |\<in>| knownIds c
          then task_fulfilled k (st\<lparr>rs_context := count_skipped c\<rparr>)
          else st\<lparr>tasks := (tasks st)[k := AwaitInsert mapped]\<rparr>)"

definition step_task :: "run_env \<Rightarrow> nat \<Rightarrow> run_state \<Rightarrow> run_state" where
  "step_task E k st =
     (if k \<ge> length (tasks st) then st
      else case tasks st ! k of
        AwaitChannel video src \<Rightarrow>
          (case src of
             Inl chan \<Rightarrow> continue_with_channel E k video chan st
           | Inr insertPayload \<Rightarrow>
               (case withDatabaseRetry (retry (ingest E)) (db_attempt (upsert_channel insertPayload))
                       (rs_world st) of
                  (Inl e, w) \<Rightarrow> task_rejected k e (st\<lparr>rs_world := w\<rparr>)
                | (Inr rows, w) \<Rightarrow>
                    (case rows of
                       [] \<Rightarrow> task_rejected k
                               (new_Error (''Failed to upsert channel '' @ canonicalUrl insertPayload
                                           @ ''; database returned no record.''))
                               (st\<lparr>rs_world := w\<rparr>)
                     | record # _ \<Rightarrow>
                         continue_with_channel E k video record
                           (st\<lparr>rs_world := w,
                               rs_context := (rs_context st)\<lparr>channel := Some record\<rparr>\<rparr>))))
      | AwaitInsert mapped \<Rightarrow>
          (case withDatabaseRetry (retry (ingest E)) (db_attempt (insert_video mapped)) (rs_world st) of
             (Inl e, w) \<Rightarrow> task_rejected k e (st\<lparr>rs_world := w\<rparr>)
           | (Inr insertedRows, w) \<Rightarrow>
               (let c = rs_context st;
                    c = (if length insertedRows = 0 then count_skipped c else count_inserted c)
                in task_fulfilled k
                     (st\<lparr>rs_world := w, rs_context := add_known (video_id mapped) c\<rparr>)))
      | Fulfilled \<Rightarrow> st
      | Rejected e \<Rightarrow> st)"

text \<open>The \<^verbatim>\<open>while (newlineIndex !== -1)\<close> loop of the \<^verbatim>\<open>data\<close> handler of standard output,
  on the buffer \<open>buf\<close>; it stores what is left of the buffer when it stops.\<close>

definition not_newline :: "char \<Rightarrow> bool" where
  "not_newline c = (c \<noteq> CHR 0x0A)"

function drain_lines :: "run_env \<Rightarrow> string \<Rightarrow> run_state \<Rightarrow> run_state" where
  "drain_lines E buf st =
     (case dropWhile not_newline buf of
        [] \<Rightarrow> st\<lparr>stdoutBuffer := buf\<rparr>
      | nl # rest \<Rightarrow>
          (let line = trim (takeWhile not_newline buf) in
           if length line > 0 then
             (case JSON_parse E line of
                Inr parsed_line \<Rightarrow>
                  drain_lines E rest (enqueueVideo E parsed_line (st\<lparr>parsedCount := parsedCount st + 1\<rparr>))
              | Inl msg \<Rightarrow>
                  reject (new_Error (''Failed to parse yt-dlp output line: '' @ msg))
                    (st\<lparr>stdoutBuffer := rest, child_killed := True\<rparr>))
           else drain_lines E rest st))"
  by pat_completeness auto
termination
proof (relation "measure (\<lambda>(E, buf, st). length buf)")
  show "wf (measure (\<lambda>(E, buf, st). length buf))" by simp
next
  fix E :: run_env and buf :: string and st :: run_state and nl rest line parsed_line
  assume "dropWhile not_newline buf = nl # rest"
  then have "length rest < length (dropWhile not_newline buf)" by simp
  also have "\<dots> \<le> length buf" by (rule length_dropWhile_le)
  finally show "((E, rest, enqueueVideo E parsed_line (st\<lparr>parsedCount := parsedCount st + 1\<rparr>)),
     (E, buf, st)) \<in> measure (\<lambda>(E, buf, st). length buf)" by simp
next
  fix E :: run_env and buf :: string and st :: run_state and nl rest line
  assume "dropWhile not_newline buf = nl # rest"
  then have "length rest < length (dropWhile not_newline buf)" by simp
  also have "\<dots> \<le> length buf" by (rule length_dropWhile_le)
  finally show "((E, rest, st), (E, buf, st)) \<in> measure (\<lambda>(E, buf, st). length buf)" by simp
qed

text \<open>\<^verbatim>\<open>child.on("close", async (code) => { ... })\<close> up to the \<^verbatim>\<open>await\<close>.\<close>

definition await_all :: "int option \<Rightarrow> run_state \<Rightarrow> run_state" where
  "await_all code st = after_settle (st\<lparr>phase := Draining code\<rparr>)"

definition on_close :: "run_env \<Rightarrow> int option \<Rightarrow> run_state \<Rightarrow> run_state" where
  "on_close E code st =
     (let remaining = trim (stdoutBuffer st) in
      if length remaining > 0 then
        (case JSON_parse E remaining of
           Inr parsed_line \<Rightarrow>
             await_all code (enqueueVideo E parsed_line (st\<lparr>parsedCount := parsedCount st + 1\<rparr>))
         | Inl msg \<Rightarrow>
             reject (new_Error (''Failed to parse trailing yt-dlp output: '' @ msg))
               (st\<lparr>phase := Aborted\<rparr>))
      else await_all code st)"

text \<open>One event. The child's streams have ended when \<^verbatim>\<open>close\<close> is emitted, and \<^verbatim>\<open>close\<close> is
  emitted once: output and close events count only while streaming. \<^verbatim>\<open>child.on("error", reject)\<close>
  passes every error event to the promise.\<close>

definition step :: "run_env \<Rightarrow> run_state \<Rightarrow> event \<Rightarrow> run_state" where
  "step E st ev =
     (case ev of
        Stdout chunk \<Rightarrow> if phase st = Streaming then drain_lines E (stdoutBuffer st @ chunk) st else st
      | Stderr chunk \<Rightarrow>
          if phase st = Streaming then st\<lparr>stderrBuffer := stderrBuffer st @ chunk\<rparr> else st
      | SpawnError e \<Rightarrow> reject e st
      | Step k \<Rightarrow> step_task E k st
      | Close code \<Rightarrow> if phase st = Streaming then on_close E code st else st)"

definition run :: "run_env \<Rightarrow> run_state \<Rightarrow> event list \<Rightarrow> run_state" where
  "run E st evs = foldl (step E) st evs"

text \<open>The state in which \<^verbatim>\<open>main\<close> calls \<^verbatim>\<open>scrapeChannel\<close>.\<close>

definition initial_state :: "IngestionContext \<Rightarrow> world \<Rightarrow> run_state" where
  "initial_state c w =
     \<lparr>rs_context = c, rs_world = w, parsedCount = 0, stdoutBuffer = [], stderrBuffer = [],
      ingestionError = None, tasks = [], settle_calls = [], child_killed = False,
      phase = Streaming\<rparr>"

subsection \<open>Counter conservation\<close>

fun is_fulfilled :: "task \<Rightarrow> bool" where
  "is_fulfilled Fulfilled = True"
| "is_fulfilled t = False"

definition pending :: "run_state \<Rightarrow> nat" where
  "pending st = length (filter (\<lambda>t. \<not> is_fulfilled t) (tasks st))"

definition outcomes :: "IngestionContext \<Rightarrow> nat" where
  "outcomes c = inserted (stats c) + skippedExisting (stats c) + invalid (stats c)"

definition conserved :: "run_state \<Rightarrow> bool" where
  "conserved st \<longleftrightarrow> parsed (stats (rs_context st)) = outcomes (rs_context st) + pending st"

lemma reject_fields [simp]:
  "rs_context (reject e st) = rs_context st" "rs_world (reject e st) = rs_world st"
  "tasks (reject e st) = tasks st" "phase (reject e st) = phase st"
  "parsedCount (reject e st) = parsedCount st" "ingestionError (reject e st) = ingestionError st"
  "stderrBuffer (reject e st) = stderrBuffer st"
  "settle_calls (reject e st) = settle_calls st @ [Inl e]"
  by (simp_all add: reject_def)

lemma resolve_fields [simp]:
  "rs_context (resolve n st) = rs_context st" "rs_world (resolve n st) = rs_world st"
  "tasks (resolve n st) = tasks st" "phase (resolve n st) = phase st"
  "parsedCount (resolve n st) = parsedCount st" "ingestionError (resolve n st) = ingestionError st"
  "stderrBuffer (resolve n st) = stderrBuffer st"
  "settle_calls (resolve n st) = settle_calls st @ [Inr n]"
  by (simp_all add: resolve_def)

lemma abortChild_fields [simp]:
  "rs_context (abortChild st) = rs_context st" "rs_world (abortChild st) = rs_world st"
  "tasks (abortChild st) = tasks st" "phase (abortChild st) = phase st"
  "parsedCount (abortChild st) = parsedCount st" "ingestionError (abortChild st) = ingestionError st"
  "stderrBuffer (abortChild st) = stderrBuffer st"
  "settle_calls (abortChild st) = settle_calls st"
  by (simp_all add: abortChild_def)

lemma finish_close_frame [simp]:
  "rs_context (finish_close code st) = rs_context st" "rs_world (finish_close code st) = rs_world st"
  "tasks (finish_close code st) = tasks st" "phase (finish_close code st) = Finished code"
  "parsedCount (finish_close code st) = parsedCount st"
  "ingestionError (finish_close code st) = ingestionError st"
  "stderrBuffer (finish_close code st) = stderrBuffer st"
  by (simp_all add: finish_close_def Let_def split: option.split)

lemma after_settle_frame [simp]:
  "rs_context (after_settle st) = rs_context st" "rs_world (after_settle st) = rs_world st"
  "tasks (after_settle st) = tasks st"
  "parsedCount (after_settle st) = parsedCount st"
  "ingestionError (after_settle st) = ingestionError st"
  "stderrBuffer (after_settle st) = stderrBuffer st"
  by (simp_all add: after_settle_def split: phase.split)

lemma filter_update_count:
  "k < length xs \<Longrightarrow>
     length (filter P (xs[k := y])) + (if P (xs ! k) then 1 else 0)
       = length (filter P xs) + (if P y then 1 else 0)"
proof (induction xs arbitrary: k)
  case Nil
  then show ?case by simp
next
  case (Cons a xs)
  show ?case
  proof (cases k)
    case 0
    then show ?thesis by simp
  next
    case (Suc j)
    with Cons.prems have "j < length xs" by simp
    from Cons.IH [OF this] Suc show ?thesis by simp
  qed
qed

lemma task_fulfilled_context [simp]: "rs_context (task_fulfilled k st) = rs_context st"
  by (simp add: task_fulfilled_def)

lemma task_rejected_context [simp]: "rs_context (task_rejected k e st) = rs_context st"
  by (simp add: task_rejected_def Let_def)

lemma task_fulfilled_pending:
  assumes "k < length (tasks st)" "\<not> is_fulfilled (tasks st ! k)"
  shows "pending (task_fulfilled k st) + 1 = pending st"
  using filter_update_count [OF assms(1), of "\<lambda>t. \<not> is_fulfilled t" Fulfilled] assms(2)
  by (simp add: pending_def task_fulfilled_def)

lemma task_rejected_tasks:
  "\<exists>x. tasks (task_rejected k e st) = (tasks st)[k := Rejected x]"
  by (auto simp: task_rejected_def Let_def)

lemma task_rejected_pending:
  assumes "k < length (tasks st)" "\<not> is_fulfilled (tasks st ! k)"
  shows "pending (task_rejected k e st) = pending st"
proof -
  from task_rejected_tasks obtain x
    where "tasks (task_rejected k e st) = (tasks st)[k := Rejected x]" by blast
  with filter_update_count [OF assms(1), of "\<lambda>t. \<not> is_fulfilled t" "Rejected x"] assms(2)
  show ?thesis by (simp add: pending_def)
qed

lemma outcomes_count [simp]:
  "outcomes (count_invalid c) = outcomes c + 1"
  "outcomes (count_skipped c) = outcomes c + 1"
  "outcomes (count_inserted c) = outcomes c + 1"
  "outcomes (add_known i c) = outcomes c"
  by (simp_all add: outcomes_def count_invalid_def count_skipped_def count_inserted_def add_known_def)

lemma parsed_count [simp]:
  "parsed (stats (count_invalid c)) = parsed (stats c)"
  "parsed (stats (count_skipped c)) = parsed (stats c)"
  "parsed (stats (count_inserted c)) = parsed (stats c)"
  "parsed (stats (add_known i c)) = parsed (stats c)"
  by (simp_all add: count_invalid_def count_skipped_def count_inserted_def add_known_def)

lemma pending_frame [simp]:
  "pending (st\<lparr>rs_context := c\<rparr>) = pending st"
  "pending (st\<lparr>rs_world := w\<rparr>) = pending st"
  by (simp_all add: pending_def)

lemma enqueueVideo_conserved: "conserved st \<Longrightarrow> conserved (enqueueVideo E video st)"
  by (simp add: conserved_def enqueueVideo_def Let_def pending_def outcomes_def split: option.split)

lemma fulfil_conserved:
  assumes "conserved st" "k < length (tasks st)" "\<not> is_fulfilled (tasks st ! k)"
    and "parsed (stats c) = parsed (stats (rs_context st))"
    and "outcomes c = outcomes (rs_context st) + 1"
  shows "conserved (task_fulfilled k (st\<lparr>rs_world := w, rs_context := c\<rparr>))"
proof -
  let ?st = "st\<lparr>rs_world := w, rs_context := c\<rparr>"
  have "pending (task_fulfilled k ?st) + 1 = pending ?st"
    by (rule task_fulfilled_pending) (use assms in simp_all)
  with assms show ?thesis by (simp add: conserved_def)
qed

lemma reject_conserved:
  assumes "conserved st" "k < length (tasks st)" "\<not> is_fulfilled (tasks st ! k)"
  shows "conserved (task_rejected k e (st\<lparr>rs_world := w\<rparr>))"
proof -
  let ?st = "st\<lparr>rs_world := w\<rparr>"
  have "pending (task_rejected k e ?st) = pending ?st"
    by (rule task_rejected_pending) (use assms in simp_all)
  with assms show ?thesis by (simp add: conserved_def)
qed

lemma continue_with_channel_conserved:
  assumes "conserved st" "k < length (tasks st)" "\<not> is_fulfilled (tasks st ! k)"
  shows "conserved (continue_with_channel E k video chan st)"
proof (cases "mapRawVideoToInsert (clock_now (ingest E)) video (channel_id chan)
                (ctx_scrapedAt (rs_context st))")
  case None
  from fulfil_conserved [OF assms, of "count_invalid (rs_context st)" "rs_world st"] None
  show ?thesis by (simp add: continue_with_channel_def)
next
  case (Some mapped)
  show ?thesis
  proof (cases "video_id mapped |\<in>| knownIds (rs_context st)")
    case True
    from fulfil_conserved [OF assms, of "count_skipped (rs_context st)" "rs_world st"] Some True
    show ?thesis by (simp add: continue_with_channel_def)
  next
    case False
    from filter_update_count [OF assms(2), of "\<lambda>t. \<not> is_fulfilled t" "AwaitInsert mapped"] assms(3)
    have "pending (st\<lparr>tasks := (tasks st)[k := AwaitInsert mapped]\<rparr>) = pending st"
      by (simp add: pending_def)
    with assms(1) Some False show ?thesis
      by (simp add: continue_with_channel_def conserved_def)
  qed
qed

lemma step_task_conserved:
  assumes "conserved st"
  shows "conserved (step_task E k st)"
proof (cases "k < length (tasks st)")
  case False
  with assms show ?thesis by (simp add: step_task_def)
next
  case k: True
  show ?thesis
  proof (cases "tasks st ! k")
    case (AwaitChannel video src)
    then have nf: "\<not> is_fulfilled (tasks st ! k)" by simp
    show ?thesis
    proof (cases src)
      case (Inl chan)
      with k AwaitChannel continue_with_channel_conserved [OF assms k nf]
      show ?thesis by (simp add: step_task_def)
    next
      case (Inr insertPayload)
      obtain r w where up:
        "withDatabaseRetry (retry (ingest E)) (db_attempt (upsert_channel insertPayload)) (rs_world st)
           = (r, w)" by (cases "withDatabaseRetry (retry (ingest E)) (db_attempt (upsert_channel insertPayload)) (rs_world st)")
      show ?thesis
      proof (cases r)
        case (Inl e)
        with k AwaitChannel Inr up reject_conserved [OF assms k nf]
        show ?thesis by (simp add: step_task_def)
      next
        case rows: (Inr rows)
        show ?thesis
        proof (cases rows)
          case Nil
          with k AwaitChannel Inr up rows reject_conserved [OF assms k nf]
          show ?thesis by (simp add: step_task_def)
        next
          case (Cons row rest)
          let ?st = "st\<lparr>rs_world := w, rs_context := (rs_context st)\<lparr>channel := Some row\<rparr>\<rparr>"
          have "conserved ?st" using assms by (simp add: conserved_def outcomes_def pending_def)
          moreover have "k < length (tasks ?st)" "\<not> is_fulfilled (tasks ?st ! k)"
            using k nf by simp_all
          ultimately have "conserved (continue_with_channel E k video row ?st)"
            by (rule continue_with_channel_conserved)
          with k AwaitChannel Inr up rows Cons show ?thesis by (simp add: step_task_def)
        qed
      qed
    qed
  next
    case (AwaitInsert mapped)
    then have nf: "\<not> is_fulfilled (tasks st ! k)" by simp
    obtain r w where ins:
      "withDatabaseRetry (retry (ingest E)) (db_attempt (insert_video mapped)) (rs_world st) = (r, w)"
      by (cases "withDatabaseRetry (retry (ingest E)) (db_attempt (insert_video mapped)) (rs_world st)")
    show ?thesis
    proof (cases r)
      case (Inl e)
      with k AwaitInsert ins reject_conserved [OF assms k nf]
      show ?thesis by (simp add: step_task_def)
    next
      case (Inr insertedRows)
      let ?c = "add_known (video_id mapped)
                  (if length insertedRows = 0 then count_skipped (rs_context st)
                   else count_inserted (rs_context st))"
      have "conserved (task_fulfilled k (st\<lparr>rs_world := w, rs_context := ?c\<rparr>))"
        by (rule fulfil_conserved [OF assms k nf]) simp_all
      with k AwaitInsert ins Inr show ?thesis by (simp add: step_task_def Let_def)
    qed
  next
    case Fulfilled
    with k assms show ?thesis by (simp add: step_task_def)
  next
    case (Rejected e)
    with k assms show ?thesis by (simp add: step_task_def)
  qed
qed

lemmas drain_lines_unfold = drain_lines.simps
declare drain_lines.simps [simp del]

lemma conserved_frame [simp]:
  "conserved (st\<lparr>parsedCount := n\<rparr>) = conserved st"
  "conserved (st\<lparr>stdoutBuffer := b\<rparr>) = conserved st"
  "conserved (st\<lparr>stderrBuffer := b\<rparr>) = conserved st"
  "conserved (st\<lparr>child_killed := f\<rparr>) = conserved st"
  "conserved (st\<lparr>phase := p\<rparr>) = conserved st"
  "conserved (reject e st) = conserved st"
  "conserved (after_settle st) = conserved st"
  by (simp_all add: conserved_def pending_def)

lemma drain_lines_done:
  "dropWhile not_newline buf = [] \<Longrightarrow> drain_lines E buf st = st\<lparr>stdoutBuffer := buf\<rparr>"
  by (subst drain_lines_unfold) (simp del: dropWhile_eq_Nil_conv)

lemma drain_lines_blank:
  "dropWhile not_newline buf = nl # rest \<Longrightarrow> trim (takeWhile not_newline buf) = [] \<Longrightarrow>
   drain_lines E buf st = drain_lines E rest st"
  by (subst drain_lines_unfold) simp

lemma drain_lines_bad:
  "dropWhile not_newline buf = nl # rest \<Longrightarrow> trim (takeWhile not_newline buf) \<noteq> [] \<Longrightarrow>
   JSON_parse E (trim (takeWhile not_newline buf)) = Inl msg \<Longrightarrow>
   drain_lines E buf st =
     reject (new_Error (''Failed to parse yt-dlp output line: '' @ msg))
       (st\<lparr>stdoutBuffer := rest, child_killed := True\<rparr>)"
  by (subst drain_lines_unfold) simp

lemma drain_lines_good:
  "dropWhile not_newline buf = nl # rest \<Longrightarrow> trim (takeWhile not_newline buf) \<noteq> [] \<Longrightarrow>
   JSON_parse E (trim (takeWhile not_newline buf)) = Inr v \<Longrightarrow>
   drain_lines E buf st =
     drain_lines E rest (enqueueVideo E v (st\<lparr>parsedCount := parsedCount st + 1\<rparr>))"
  by (subst drain_lines_unfold) simp

lemma drain_lines_conserved: "conserved st \<Longrightarrow> conserved (drain_lines E buf st)"
proof (induction E buf st rule: drain_lines.induct)
  case (1 E buf st)
  show ?case
  proof (cases "dropWhile not_newline buf")
    case Nil
    with "1.prems" show ?thesis by (simp add: drain_lines_done del: dropWhile_eq_Nil_conv)
  next
    case (Cons nl rest)
    let ?line = "trim (takeWhile not_newline buf)"
    show ?thesis
    proof (cases "length ?line > 0")
      case False
      from "1.IH"(2) [OF Cons refl False "1.prems"] Cons False
      show ?thesis by (simp add: drain_lines_blank)
    next
      case True
      show ?thesis
      proof (cases "JSON_parse E ?line")
        case (Inl msg)
        with Cons True "1.prems" show ?thesis by (simp add: drain_lines_bad)
      next
        case (Inr v)
        have "conserved (enqueueVideo E v (st\<lparr>parsedCount := parsedCount st + 1\<rparr>))"
          using "1.prems" by (intro enqueueVideo_conserved) simp
        from "1.IH"(1) [OF Cons refl True Inr this] Cons True Inr
        show ?thesis by (simp add: drain_lines_good)
      qed
    qed
  qed
qed

lemma on_close_conserved: "conserved st \<Longrightarrow> conserved (on_close E code st)"
  by (simp add: on_close_def await_all_def Let_def enqueueVideo_conserved split: sum.split)

lemma step_conserved: "conserved st \<Longrightarrow> conserved (step E st ev)"
  by (cases ev)
     (simp_all add: step_def drain_lines_conserved step_task_conserved on_close_conserved)

lemma run_conserved: "conserved st \<Longrightarrow> conserved (run E st evs)"
  unfolding run_def by (induction evs arbitrary: st) (simp_all add: step_conserved)

lemma pending_zero: "pending st = 0 \<longleftrightarrow> list_all is_fulfilled (tasks st)"
  by (simp add: pending_def list_all_iff filter_empty_conv)

subsection \<open>How a run ends\<close>

text \<open>What the end of the \<^verbatim>\<open>close\<close> handler passes to the promise.\<close>

definition close_verdict :: "int option \<Rightarrow> run_state \<Rightarrow> thrown + nat" where
  "close_verdict code st =
     (case ingestionError st of
        Some e \<Rightarrow> Inl e
      | None \<Rightarrow>
          if code \<noteq> Some 0 \<and> parsedCount st = 0
          then Inl (new_Error (exit_message code (stderrBuffer st)))
          else Inr (parsedCount st))"

fun is_finished :: "phase \<Rightarrow> bool" where
  "is_finished (Finished code) = True"
| "is_finished p = False"

text \<open>
  What holds of every state a run reaches; \<open>Q\<close> holds of every call made on the promise
  before the verdict.
\<close>

definition run_inv :: "(thrown + nat \<Rightarrow> bool) \<Rightarrow> run_state \<Rightarrow> bool" where
  "run_inv Q st \<longleftrightarrow>
     (ingestionError st = None \<longleftrightarrow> \<not> list_ex is_rejected (tasks st)) \<and>
     (\<not> is_finished (phase st) \<longrightarrow> list_all Q (settle_calls st)) \<and>
     (\<forall>code. phase st = Draining code \<longrightarrow> list_ex in_flight (tasks st)) \<and>
     (phase st = Aborted \<longrightarrow> settle_calls st \<noteq> []) \<and>
     (\<forall>code. phase st = Finished code \<longrightarrow>
        \<not> list_ex in_flight (tasks st) \<and>
        (\<exists>early late. settle_calls st = early @ close_verdict code st # late \<and>
                      list_all Q early))"


lemma close_verdict_frame [simp]:
  "close_verdict code (finish_close code' st) = close_verdict code st"
  "close_verdict code (reject e st) = close_verdict code st"
  "close_verdict code (st\<lparr>phase := p\<rparr>) = close_verdict code st"
  "close_verdict code (st\<lparr>rs_context := c\<rparr>) = close_verdict code st"
  "close_verdict code (st\<lparr>rs_world := w\<rparr>) = close_verdict code st"
  "close_verdict code (st\<lparr>stdoutBuffer := b\<rparr>) = close_verdict code st"
  "close_verdict code (st\<lparr>child_killed := f\<rparr>) = close_verdict code st"
  "close_verdict code (st\<lparr>tasks := ts\<rparr>) = close_verdict code st"
  "close_verdict code (abortChild st) = close_verdict code st"
  by (simp_all add: close_verdict_def split: option.split)





lemma run_inv_frame [simp]:
  "run_inv Q (st\<lparr>rs_context := c\<rparr>) = run_inv Q st"
  "run_inv Q (st\<lparr>rs_world := w\<rparr>) = run_inv Q st"
  "run_inv Q (st\<lparr>stdoutBuffer := b\<rparr>) = run_inv Q st"
  "run_inv Q (st\<lparr>child_killed := f\<rparr>) = run_inv Q st"
  "run_inv Q (abortChild st) = run_inv Q st"
  by (simp_all add: run_inv_def)








lemma run_inv_streaming [simp]:
  "phase st = Streaming \<Longrightarrow> run_inv Q (st\<lparr>parsedCount := n\<rparr>) = run_inv Q st"
  "phase st = Streaming \<Longrightarrow> run_inv Q (st\<lparr>stderrBuffer := b\<rparr>) = run_inv Q st"
  by (simp_all add: run_inv_def)

lemma enqueueVideo_phase [simp]: "phase (enqueueVideo E video st) = phase st"
  by (simp add: enqueueVideo_def Let_def)











text \<open>The store operations a task still has to resume from, and their sum over the tasks.\<close>

fun awaits :: "task \<Rightarrow> nat" where
  "awaits (AwaitChannel video src) = 2"
| "awaits (AwaitInsert mapped) = 1"
| "awaits t = 0"

definition remaining :: "run_state \<Rightarrow> nat" where
  "remaining st = sum_list (map awaits (tasks st))"





lemma remaining_frame [simp]:
  "remaining (st\<lparr>rs_context := c\<rparr>) = remaining st"
  "remaining (st\<lparr>rs_world := w\<rparr>) = remaining st"
  by (simp_all add: remaining_def)







text \<open>
  Values for the examples. The parser stands for \<^verbatim>\<open>JSON.parse\<close> on the four lines the examples
  use: three objects, and one line that is not JSON.
\<close>

definition example_parse :: "string \<Rightarrow> string + RawVideo" where
  \<open>example_parse l =
     (if l = ''{"id":"a"}'' then Inr [(''id'', JStr ''a'')]
      else if l = ''{"id":"b"}'' then Inr [(''id'', JStr ''b'')]
      else if l = ''{}'' then Inr []
      else Inl ''Unexpected token'')\<close>

definition example_run_env :: run_env where
  "example_run_env = \<lparr>ingest = example_env, JSON_parse = example_parse\<rparr>"

definition example_start :: run_state where
  "example_start =
     initial_state (example_context (Some example_channel) {||}) (example_world [] [])"

text \<open>Three lines in one chunk, the second and third with the same id; every task runs
  to its end; the child exits with code 0.\<close>

definition example_events :: "event list" where
  \<open>example_events =
     [Stdout (''{"id":"a"}'' @ [CHR 0x0A] @ ''{"id":"b"}'' @ [CHR 0x0A] @ ''{"id":"b"}'' @ [CHR 0x0A]),
      Step 0, Step 1, Step 2, Step 0, Step 1, Step 2, Close (Some 0)]\<close>




text \<open>
  C10. A call of \<^verbatim>\<open>ingestVideo\<close> that returns leaves the parsed counter alone and adds one to
  exactly one of the inserted, skipped-existing and invalid counters. In every state of a
  run that starts with all four counters at zero, as \<^verbatim>\<open>createIngestionContext\<close> sets them,
  the parsed counter is the sum of the three and of the number of dispatched tasks that
  have not succeeded (in flight or failed); so when every dispatched task has succeeded,
  parsed = inserted + skippedExisting + invalid.
\<close>

theorem counter_conservation:
  "(ingestVideo En video context w = (Inr (), context', w') \<longrightarrow>
      parsed (stats context') = parsed (stats context) \<and>
      ((inserted (stats context') = inserted (stats context) + 1 \<and>
        skippedExisting (stats context') = skippedExisting (stats context) \<and>
        invalid (stats context') = invalid (stats context)) \<or>
       (inserted (stats context') = inserted (stats context) \<and>
        skippedExisting (stats context') = skippedExisting (stats context) + 1 \<and>
        invalid (stats context') = invalid (stats context)) \<or>
       (inserted (stats context') = inserted (stats context) \<and>
        skippedExisting (stats context') = skippedExisting (stats context) \<and>
        invalid (stats context') = invalid (stats context) + 1)))
   \<and> (stats c = \<lparr>parsed = 0, inserted = 0, skippedExisting = 0, invalid = 0\<rparr> \<longrightarrow>
        parsed (stats (rs_context (run E (initial_state c w0) evs))) =
          inserted (stats (rs_context (run E (initial_state c w0) evs))) +
          skippedExisting (stats (rs_context (run E (initial_state c w0) evs))) +
          invalid (stats (rs_context (run E (initial_state c w0) evs))) +
          pending (run E (initial_state c w0) evs))
   \<and> (stats c = \<lparr>parsed = 0, inserted = 0, skippedExisting = 0, invalid = 0\<rparr> \<and>
      list_all is_fulfilled (tasks (run E (initial_state c w0) evs)) \<longrightarrow>
        parsed (stats (rs_context (run E (initial_state c w0) evs))) =
          inserted (stats (rs_context (run E (initial_state c w0) evs))) +
          skippedExisting (stats (rs_context (run E (initial_state c w0) evs))) +
          invalid (stats (rs_context (run E (initial_state c w0) evs))))"
proof (intro conjI impI)
  assume r: "ingestVideo En video context w = (Inr (), context', w')"
  from r have
    "stats context' = (stats context)\<lparr>inserted := inserted (stats context) + 1\<rparr> \<or>
     stats context' = (stats context)\<lparr>skippedExisting := skippedExisting (stats context) + 1\<rparr> \<or>
     stats context' = (stats context)\<lparr>invalid := invalid (stats context) + 1\<rparr>"
    by (cases rule: ingestVideo_paths) simp_all
  then show "parsed (stats context') = parsed (stats context)"
    and "(inserted (stats context') = inserted (stats context) + 1 \<and>
        skippedExisting (stats context') = skippedExisting (stats context) \<and>
        invalid (stats context') = invalid (stats context)) \<or>
       (inserted (stats context') = inserted (stats context) \<and>
        skippedExisting (stats context') = skippedExisting (stats context) + 1 \<and>
        invalid (stats context') = invalid (stats context)) \<or>
       (inserted (stats context') = inserted (stats context) \<and>
        skippedExisting (stats context') = skippedExisting (stats context) \<and>
        invalid (stats context') = invalid (stats context) + 1)"
    by auto
next
  let ?st = "run E (initial_state c w0) evs"
  assume z: "stats c = \<lparr>parsed = 0, inserted = 0, skippedExisting = 0, invalid = 0\<rparr>"
  then have "conserved (initial_state c w0)"
    by (simp add: conserved_def outcomes_def pending_def initial_state_def)
  then have "conserved ?st" by (rule run_conserved)
  then show "parsed (stats (rs_context ?st)) =
          inserted (stats (rs_context ?st)) + skippedExisting (stats (rs_context ?st)) +
          invalid (stats (rs_context ?st)) + pending ?st"
    by (simp add: conserved_def outcomes_def)
next
  let ?st = "run E (initial_state c w0) evs"
  assume a: "stats c = \<lparr>parsed = 0, inserted = 0, skippedExisting = 0, invalid = 0\<rparr> \<and>
      list_all is_fulfilled (tasks ?st)"
  then have "conserved (initial_state c w0)"
    by (simp add: conserved_def outcomes_def pending_def initial_state_def)
  then have "conserved ?st" by (rule run_conserved)
  moreover from a have "pending ?st = 0" by (simp add: pending_zero)
  ultimately show "parsed (stats (rs_context ?st)) =
          inserted (stats (rs_context ?st)) + skippedExisting (stats (rs_context ?st)) +
          invalid (stats (rs_context ?st))"
    by (simp add: conserved_def outcomes_def)
qed

theorem counter_conservation_witness:
  "list_all is_fulfilled (tasks (run example_run_env example_start example_events))
   \<and> inserted (stats (rs_context (run example_run_env example_start example_events))) = 2
   \<and> skippedExisting (stats (rs_context (run example_run_env example_start example_events))) = 1
   \<and> invalid (stats (rs_context (run example_run_env example_start example_events))) = 0
   \<and> parsed (stats (rs_context (run example_run_env example_start example_events))) = 3
   \<and> (\<exists>c' w'. ingestVideo example_env [(''id'', JStr ''a'')]
                 (example_context (Some example_channel) {||}) (example_world [] []) = (Inr (), c', w')
              \<and> parsed (stats c') = 0
              \<and> inserted (stats c') + skippedExisting (stats c') + invalid (stats c') = 1)"
proof -
  let ?st = "run example_run_env example_start example_events"
  let ?c = "example_context (Some example_channel) {||}" and ?w = "example_world [] []"
  have z: "stats ?c = \<lparr>parsed = 0, inserted = 0, skippedExisting = 0, invalid = 0\<rparr>"
    by (simp add: example_context_def)
  have t: "list_all is_fulfilled (tasks ?st)" by code_simp
  have i: "inserted (stats (rs_context ?st)) = 2" by code_simp
  have s: "skippedExisting (stats (rs_context ?st)) = 1" by code_simp
  have v: "invalid (stats (rs_context ?st)) = 0" by code_simp
  have p: "parsed (stats (rs_context ?st)) = 3"
    using counter_conservation [THEN conjunct2, THEN conjunct2, of ?c example_run_env ?w example_events]
      z t i s v
    by (simp add: example_start_def)
  have "faults ?w = []" by (simp add: example_world_def)
  from ingestVideo_returns_no_fault [OF this]
  obtain c' w' where r: "ingestVideo example_env [(''id'', JStr ''a'')] ?c ?w = (Inr (), c', w')"
    by blast
  from counter_conservation [THEN conjunct1, of example_env "[(''id'', JStr ''a'')]" ?c ?w c' w'] r z
  have "parsed (stats c') = 0 \<and>
        inserted (stats c') + skippedExisting (stats c') + invalid (stats c') = 1"
    by auto
  with r t i s v p show ?thesis by blast
qed

subsection \<open>A task run alone is the callback of \<^verbatim>\<open>main\<close>\<close>

text \<open>
  The tasks of the controller are the calls \<^verbatim>\<open>onVideo(video)\<close>, cut at their \<^verbatim>\<open>await\<close>s. While
  the child streams and no task has failed, dispatching a record and resuming its task
  twice, with no other task in between, leaves the context and the store as \<open>onVideo\<close>
  does, and the task fulfilled or rejected as \<open>onVideo\<close> returns or throws.
\<close>

lemma append_one_update [simp]: "(xs @ [x])[length xs := y] = xs @ [y]"
  by (induction xs) simp_all

lemma as_Error_new_Error [simp]: "as_Error (new_Error m) = new_Error m"
  by (simp add: new_Error_def)

lemma settle_streaming:
  assumes "phase st = Streaming"
  shows "task_fulfilled k st = st\<lparr>tasks := (tasks st)[k := Fulfilled]\<rparr>"
    and "ingestionError st = None \<Longrightarrow>
         task_rejected k e st =
           st\<lparr>ingestionError := Some (as_Error e), child_killed := True,
              tasks := (tasks st)[k := Rejected (as_Error e)]\<rparr>
         \<or> task_rejected k e st =
           st\<lparr>ingestionError := Some (as_Error e),
              tasks := (tasks st)[k := Rejected (as_Error e)]\<rparr>"
  using assms
  by (simp_all add: task_fulfilled_def task_rejected_def after_settle_def abortChild_def Let_def)

lemma step_task_settled:
  "k < length (tasks st) \<Longrightarrow> \<not> in_flight (tasks st ! k) \<Longrightarrow> step_task E k st = st"
  by (cases "tasks st ! k") (simp_all add: step_task_def)

text \<open>What a task does from its resumption with the channel record to its end, when no
  other task runs in between: the rest of \<^verbatim>\<open>ingestVideo\<close>.\<close>

definition ingest_rest ::
  "ingest_env \<Rightarrow> RawVideo \<Rightarrow> ChannelRow \<Rightarrow> IngestionContext \<Rightarrow> world
     \<Rightarrow> (thrown + unit) \<times> IngestionContext \<times> world" where
  "ingest_rest En video chan context w =
     (case mapRawVideoToInsert (clock_now En) video (channel_id chan) (ctx_scrapedAt context) of
        None \<Rightarrow> (Inr (), count_invalid context, w)
      | Some mapped \<Rightarrow>
          if video_id mapped |\<in>| knownIds context
          then (Inr (), count_skipped context, w)
          else
            (case withDatabaseRetry (retry En) (db_attempt (insert_video mapped)) w of
               (Inl e, w) \<Rightarrow> (Inl e, context, w)
             | (Inr insertedRows, w) \<Rightarrow>
                 if length insertedRows = 0
                 then (Inr (), add_known (video_id mapped) (count_skipped context), w)
                 else (Inr (), add_known (video_id mapped) (count_inserted context), w)))"

definition task_result :: "thrown + unit \<Rightarrow> task" where
  "task_result r = (case r of Inr u \<Rightarrow> Fulfilled | Inl e \<Rightarrow> Rejected (as_Error e))"

definition settled_like :: "run_state \<Rightarrow> task list \<Rightarrow> IngestionContext \<Rightarrow> world \<Rightarrow> bool" where
  "settled_like st ts c w \<longleftrightarrow> tasks st = ts \<and> rs_context st = c \<and> rs_world st = w"

lemma rest_one_or_two_steps:
  assumes ph: "phase st = Streaming" and ie: "ingestionError st = None"
    and k: "k < length (tasks st)"
    and r: "ingest_rest (ingest E) video chan (rs_context st) (rs_world st) = (res, c', w')"
  shows "settled_like (step_task E k (continue_with_channel E k video chan st))
           ((tasks st)[k := task_result res]) c' w'"
proof (cases "mapRawVideoToInsert (clock_now (ingest E)) video (channel_id chan)
                (ctx_scrapedAt (rs_context st))")
  case None
  let ?st = "st\<lparr>rs_context := count_invalid (rs_context st)\<rparr>"
  have 1: "continue_with_channel E k video chan st = ?st\<lparr>tasks := (tasks st)[k := Fulfilled]\<rparr>"
    using None settle_streaming(1) [of ?st k] ph by (simp add: continue_with_channel_def)
  have "step_task E k (?st\<lparr>tasks := (tasks st)[k := Fulfilled]\<rparr>) = ?st\<lparr>tasks := (tasks st)[k := Fulfilled]\<rparr>"
    by (rule step_task_settled) (use k in simp_all)
  with 1 r None show ?thesis
    by (auto simp: ingest_rest_def settled_like_def task_result_def)
next
  case (Some mapped)
  show ?thesis
  proof (cases "video_id mapped |\<in>| knownIds (rs_context st)")
    case True
    let ?st = "st\<lparr>rs_context := count_skipped (rs_context st)\<rparr>"
    have 1: "continue_with_channel E k video chan st = ?st\<lparr>tasks := (tasks st)[k := Fulfilled]\<rparr>"
      using Some True settle_streaming(1) [of ?st k] ph by (simp add: continue_with_channel_def)
    have "step_task E k (?st\<lparr>tasks := (tasks st)[k := Fulfilled]\<rparr>) = ?st\<lparr>tasks := (tasks st)[k := Fulfilled]\<rparr>"
      by (rule step_task_settled) (use k in simp_all)
    with 1 r Some True show ?thesis
      by (auto simp: ingest_rest_def settled_like_def task_result_def)
  next
    case False
    let ?st = "st\<lparr>tasks := (tasks st)[k := AwaitInsert mapped]\<rparr>"
    have 1: "continue_with_channel E k video chan st = ?st"
      using Some False by (simp add: continue_with_channel_def)
    obtain r2 w2 where ins:
      "withDatabaseRetry (retry (ingest E)) (db_attempt (insert_video mapped)) (rs_world st) = (r2, w2)"
      by (cases "withDatabaseRetry (retry (ingest E)) (db_attempt (insert_video mapped)) (rs_world st)")
    show ?thesis
    proof (cases r2)
      case (Inl e)
      have 2: "step_task E k ?st = task_rejected k e (?st\<lparr>rs_world := w2\<rparr>)"
        using k ins Inl by (simp add: step_task_def)
      from settle_streaming(2) [of "?st\<lparr>rs_world := w2\<rparr>" k e] ph ie
      have "settled_like (task_rejected k e (?st\<lparr>rs_world := w2\<rparr>))
              ((tasks st)[k := Rejected (as_Error e)]) (rs_context st) w2"
        by (auto simp: settled_like_def)
      with 1 2 r Some False ins Inl show ?thesis
        by (auto simp: ingest_rest_def task_result_def)
    next
      case (Inr rows)
      let ?c = "add_known (video_id mapped)
                  (if length rows = 0 then count_skipped (rs_context st)
                   else count_inserted (rs_context st))"
      have 2: "step_task E k ?st = task_fulfilled k (?st\<lparr>rs_world := w2, rs_context := ?c\<rparr>)"
        using k ins Inr by (simp add: step_task_def Let_def)
      from settle_streaming(1) [of "?st\<lparr>rs_world := w2, rs_context := ?c\<rparr>" k] ph
      have "settled_like (task_fulfilled k (?st\<lparr>rs_world := w2, rs_context := ?c\<rparr>))
              ((tasks st)[k := Fulfilled]) ?c w2"
        by (simp add: settled_like_def)
      with 1 2 r Some False ins Inr show ?thesis
        by (auto simp: ingest_rest_def task_result_def)
    qed
  qed
qed

lemma ingestVideo_rest:
  "ensureChannelRecord En video context w = (Inr chan, c1, w1) \<Longrightarrow>
   ingestVideo En video context w = ingest_rest En video chan c1 w1"
  by (simp add: ingestVideo_def ingest_rest_def)

lemma task_alone:
  assumes ph: "phase st = Streaming" and ie: "ingestionError st = None"
    and r: "onVideo (ingest E) video (rs_context st) (rs_world st) = (res, c', w')"
  shows "settled_like
           (step_task E (length (tasks st))
              (step_task E (length (tasks st)) (enqueueVideo E video st)))
           (tasks st @ [task_result res]) c' w'"
proof -
  define k where "k = length (tasks st)"
  define c1 where
    "c1 = (rs_context st)\<lparr>stats := (stats (rs_context st))\<lparr>parsed := parsed (stats (rs_context st)) + 1\<rparr>\<rparr>"
  from r have r1: "ingestVideo (ingest E) video c1 (rs_world st) = (res, c', w')"
    by (simp add: onVideo_def c1_def)
  show ?thesis
  proof (cases "channel (rs_context st)")
    case (Some row)
    let ?st1 = "st\<lparr>rs_context := c1, tasks := tasks st @ [AwaitChannel video (Inl row)]\<rparr>"
    have e: "enqueueVideo E video st = ?st1"
      using ie Some by (simp add: enqueueVideo_def Let_def c1_def)
    have s1: "step_task E k ?st1 = continue_with_channel E k video row ?st1"
      by (simp add: step_task_def k_def)
    have "ensureChannelRecord (ingest E) video c1 (rs_world st) = (Inr row, c1, rs_world st)"
      using Some by (simp add: ensureChannelRecord_def c1_def)
    from ingestVideo_rest [OF this] r1
    have "ingest_rest (ingest E) video row (rs_context ?st1) (rs_world ?st1) = (res, c', w')"
      by simp
    from rest_one_or_two_steps [OF _ _ _ this, of k] ph ie
    have "settled_like (step_task E k (continue_with_channel E k video row ?st1))
            ((tasks ?st1)[k := task_result res]) c' w'"
      by (simp add: k_def)
    then show ?thesis
      unfolding k_def [symmetric] e s1 by (simp add: k_def)
  next
    case None
    define p where
      "p = buildChannelInsertPayload (platform (ingest E)) video (channelUrl c1) (ctx_scrapedAt c1)"
    let ?st1 = "st\<lparr>rs_context := c1, tasks := tasks st @ [AwaitChannel video (Inr p)]\<rparr>"
    have cn: "channel c1 = None" using None by (simp add: c1_def)
    have e: "enqueueVideo E video st = ?st1"
      using ie None by (simp add: enqueueVideo_def Let_def c1_def p_def)
    obtain r2 w2 where up:
      "withDatabaseRetry (retry (ingest E)) (db_attempt (upsert_channel p)) (rs_world st) = (r2, w2)"
      by (cases "withDatabaseRetry (retry (ingest E)) (db_attempt (upsert_channel p)) (rs_world st)")
    have failed: "settled_like (step_task E k (task_rejected k x (?st1\<lparr>rs_world := w2\<rparr>)))
                    (tasks st @ [Rejected (as_Error x)]) c1 w2" for x
    proof -
      let ?st2 = "task_rejected k x (?st1\<lparr>rs_world := w2\<rparr>)"
      from settle_streaming(2) [of "?st1\<lparr>rs_world := w2\<rparr>" k x] ph ie
      have a: "settled_like ?st2 (tasks st @ [Rejected (as_Error x)]) c1 w2"
        by (auto simp: settled_like_def k_def)
      then have "step_task E k ?st2 = ?st2"
        by (intro step_task_settled) (simp_all add: settled_like_def k_def)
      with a show ?thesis by simp
    qed
    show ?thesis
    proof (cases r2)
      case (Inl x)
      have s1: "step_task E k ?st1 = task_rejected k x (?st1\<lparr>rs_world := w2\<rparr>)"
        using up Inl by (simp add: step_task_def k_def)
      have "ensureChannelRecord (ingest E) video c1 (rs_world st) = (Inl x, c1, w2)"
        using cn up Inl by (simp add: ensureChannelRecord_def Let_def p_def)
      from ingestVideo_channel_failed [OF this] r1
      have "res = Inl x" "c' = c1" "w' = w2" by simp_all
      with failed [of x] show ?thesis
        unfolding k_def [symmetric] e s1 by (simp add: task_result_def)
    next
      case (Inr rows)
      show ?thesis
      proof (cases rows)
        case Nil
        let ?x = "new_Error (''Failed to upsert channel '' @ canonicalUrl p
                             @ ''; database returned no record.'')"
        have s1: "step_task E k ?st1 = task_rejected k ?x (?st1\<lparr>rs_world := w2\<rparr>)"
          using up Inr Nil by (simp add: step_task_def k_def)
        have "ensureChannelRecord (ingest E) video c1 (rs_world st) = (Inl ?x, c1, w2)"
          using cn up Inr Nil by (simp add: ensureChannelRecord_def Let_def p_def)
        from ingestVideo_channel_failed [OF this] r1
        have "res = Inl ?x" "c' = c1" "w' = w2" by simp_all
        with failed [of ?x] show ?thesis
          unfolding k_def [symmetric] e s1 by (simp add: task_result_def)
      next
        case (Cons row rest)
        let ?st2 = "?st1\<lparr>rs_world := w2, rs_context := c1\<lparr>channel := Some row\<rparr>\<rparr>"
        have s1: "step_task E k ?st1 = continue_with_channel E k video row ?st2"
          using up Inr Cons by (simp add: step_task_def k_def)
        have "ensureChannelRecord (ingest E) video c1 (rs_world st)
                = (Inr row, c1\<lparr>channel := Some row\<rparr>, w2)"
          using cn up Inr Cons by (simp add: ensureChannelRecord_def Let_def p_def)
        from ingestVideo_rest [OF this] r1
        have "ingest_rest (ingest E) video row (rs_context ?st2) (rs_world ?st2) = (res, c', w')"
          by simp
        from rest_one_or_two_steps [OF _ _ _ this, of k] ph ie
        have "settled_like (step_task E k (continue_with_channel E k video row ?st2))
                ((tasks ?st2)[k := task_result res]) c' w'"
          by (simp add: k_def)
        then show ?thesis
          unfolding k_def [symmetric] e s1 by (simp add: k_def)
      qed
    qed
  qed
qed

end
